theory Spec2Isabelle
  imports Complex_Main "HOL-Library.Word"
begin

section \<open>JavaScript values as the code uses them\<close>

text \<open>
  A string is the list of its UTF-16 code units, and a \<open>char\<close> is a code unit below 256:
  the strings of the model are the JavaScript strings of ASCII and Latin-1 characters,
  and \<open>charCodeAt\<close> is the value of the \<open>char\<close>. \<open>undefined\<close> and \<open>null\<close> are \<open>None\<close>. A
  JavaScript array is a list.
\<close>

definition slice0 :: "int \<Rightarrow> 'a list \<Rightarrow> 'a list" where
  \<comment> \<open>\<open>arr.slice(0, n)\<close>: a negative end counts from the end of the array.\<close>
  "slice0 n xs = (if n < 0 then take (nat (int (length xs) + n)) xs else take (nat n) xs)"

definition orEmpty :: "string option \<Rightarrow> string" where
  \<comment> \<open>\<open>s || ''\<close> for a string that may be undefined.\<close>
  "orEmpty s = (case s of None \<Rightarrow> [] | Some v \<Rightarrow> v)"

definition truthy :: "string option \<Rightarrow> bool" where
  \<comment> \<open>a string in a condition: undefined, null and the empty string are falsy.\<close>
  "truthy s = (case s of None \<Rightarrow> False | Some v \<Rightarrow> v \<noteq> [])"

definition upperLetters :: string where
  \<comment> \<open>the letters, below code unit 256, that \<open>toLowerCase\<close> changes: A to Z, and U+00C0 to
     U+00DE without the multiplication sign U+00D7\<close>
  "upperLetters = ''ABCDEFGHIJKLMNOPQRSTUVWXYZ'' @
     [CHR 0xC0, CHR 0xC1, CHR 0xC2, CHR 0xC3, CHR 0xC4, CHR 0xC5, CHR 0xC6, CHR 0xC7,
      CHR 0xC8, CHR 0xC9, CHR 0xCA, CHR 0xCB, CHR 0xCC, CHR 0xCD, CHR 0xCE, CHR 0xCF,
      CHR 0xD0, CHR 0xD1, CHR 0xD2, CHR 0xD3, CHR 0xD4, CHR 0xD5, CHR 0xD6,
      CHR 0xD8, CHR 0xD9, CHR 0xDA, CHR 0xDB, CHR 0xDC, CHR 0xDD, CHR 0xDE]"

definition lowerLetters :: string where
  "lowerLetters = ''abcdefghijklmnopqrstuvwxyz'' @
     [CHR 0xE0, CHR 0xE1, CHR 0xE2, CHR 0xE3, CHR 0xE4, CHR 0xE5, CHR 0xE6, CHR 0xE7,
      CHR 0xE8, CHR 0xE9, CHR 0xEA, CHR 0xEB, CHR 0xEC, CHR 0xED, CHR 0xEE, CHR 0xEF,
      CHR 0xF0, CHR 0xF1, CHR 0xF2, CHR 0xF3, CHR 0xF4, CHR 0xF5, CHR 0xF6,
      CHR 0xF8, CHR 0xF9, CHR 0xFA, CHR 0xFB, CHR 0xFC, CHR 0xFD, CHR 0xFE]"

definition lowerChar :: "char \<Rightarrow> char" where
  "lowerChar c =
     (case map_of (zip upperLetters lowerLetters) c of
        None \<Rightarrow> c
      | Some l \<Rightarrow> l)"

definition toLowerCase :: "string \<Rightarrow> string" where
  "toLowerCase s = map lowerChar s"

fun startsWith :: "string \<Rightarrow> string \<Rightarrow> bool" where
  "startsWith s [] = True"
| "startsWith [] (p # ps) = False"
| "startsWith (c # cs) (p # ps) = (c = p \<and> startsWith cs ps)"

fun includesStr :: "string \<Rightarrow> string \<Rightarrow> bool" where
  "includesStr [] p = (p = [])"
| "includesStr (c # cs) p = (startsWith (c # cs) p \<or> includesStr cs p)"

definition isSpace :: "char \<Rightarrow> bool" where
  \<comment> \<open>the regular expression class \<open>\s\<close>, which is also what \<open>trim\<close> removes: below code
     unit 256 these are tab, line feed, vertical tab, form feed, carriage return, space
     and the no-break space U+00A0\<close>
  "isSpace c = (c \<in> set [CHR '' '', CHR 0x09, CHR 0x0A, CHR 0x0B, CHR 0x0C, CHR 0x0D, CHR 0xA0])"

definition isDigit :: "char \<Rightarrow> bool" where
  "isDigit c = (c \<in> set ''0123456789'')"

fun collapseFrom :: "bool \<Rightarrow> string \<Rightarrow> string" where
  \<comment> \<open>the flag says that the previous character was white space\<close>
  "collapseFrom inRun [] = []"
| "collapseFrom inRun (c # cs) =
     (if isSpace c then (if inRun then collapseFrom True cs else CHR '' '' # collapseFrom True cs)
      else c # collapseFrom False cs)"

definition collapseSpaces :: "string \<Rightarrow> string" where
  \<comment> \<open>\<open>s.replace(/\s+/g, ' ')\<close>\<close>
  "collapseSpaces s = collapseFrom False s"

definition trim :: "string \<Rightarrow> string" where
  "trim s = rev (dropWhile isSpace (rev (dropWhile isSpace s)))"

definition clip :: "nat \<Rightarrow> string \<Rightarrow> string" where
  \<comment> \<open>\<open>clip(s, n) = s.replace(/\s+/g, ' ').trim().slice(0, n)\<close>\<close>
  "clip n s = take n (trim (collapseSpaces s))"

fun dedupeFrom :: "'a list \<Rightarrow> 'a list \<Rightarrow> 'a list" where
  "dedupeFrom seen [] = []"
| "dedupeFrom seen (x # xs) =
     (if x \<in> set seen then dedupeFrom seen xs else x # dedupeFrom (x # seen) xs)"

definition dedupe :: "'a list \<Rightarrow> 'a list" where
  \<comment> \<open>\<open>Array.from(new Set(arr))\<close>: the first occurrence of each value, in order.\<close>
  "dedupe xs = dedupeFrom [] xs"

definition jsRound :: "real \<Rightarrow> int" where
  \<comment> \<open>\<open>Math.round\<close>: to the nearest integer, halves upwards.\<close>
  "jsRound v = \<lfloor>v + 1 / 2\<rfloor>"

section \<open>PageSnapshot: the data model\<close>

record BBox =
  bx :: int
  by_ :: int
  bw :: int
  bh :: int

record RawRef =
  selector :: string
  role :: "string option"
  name :: "string option"
  href :: "string option"
  visible :: "bool option"
  bbox :: "BBox option"

text \<open>A NodeRef is what \<open>addRef\<close> makes of an analyser's reference:
  \<open>{ ...r, refId: id, frameId }\<close>.\<close>

record NodeRef = RawRef +
  refId :: string
  frameId :: string

record 'r ListBlock =
  listRoot :: 'r
  itemCount :: nat
  itemLinkSelector :: "string option"
  samples :: "string list"

record 'r FormField =
  fieldLabel :: "string option"
  inputRef :: 'r

record 'r FormBlock =
  formRef :: 'r
  formFields :: "'r FormField list"
  submitRef :: "'r option"

record RefEntry =
  entrySelector :: string
  entryFrameId :: string

type_synonym RefMap = "string \<Rightarrow> RefEntry option"

record Limits =
  maxControls :: int
  maxLists :: int
  maxForms :: int
  maxFormFields :: int

definition DEFAULT_LIMITS :: Limits where
  "DEFAULT_LIMITS = \<lparr>maxControls = 30, maxLists = 2, maxForms = 3, maxFormFields = 12\<rparr>"

record Compact =
  url :: string
  title :: string
  headings :: "string list"
  lists :: "NodeRef ListBlock list"
  controls :: "NodeRef list"
  pagination :: "NodeRef list"
  forms :: "NodeRef FormBlock list"
  hints :: "real \<times> real"

record LLMSnapshot =
  compact :: Compact
  refMap :: RefMap
  frameCount :: nat

section \<open>PageSnapshot: reference ids\<close>

definition hashString :: "string \<Rightarrow> 32 word" where
  \<comment> \<open>\<open>hash = (hash*31 + base.charCodeAt(i)) | 0\<close>, starting from 0: the product
     and sum are exact in a double, and \<open>| 0\<close> wraps them to 32 bits; \<open>of_char c\<close> is the
     code unit \<open>charCodeAt\<close> reads.\<close>
  "hashString base = foldl (\<lambda>hash c. hash * 31 + of_nat (of_char c)) 0 base"

definition digit36 :: "nat \<Rightarrow> char" where
  "digit36 d = ''0123456789abcdefghijklmnopqrstuvwxyz'' ! (d mod 36)"

function toStringRadix :: "nat \<Rightarrow> nat \<Rightarrow> string" where
  \<comment> \<open>\<open>n.toString(radix)\<close> for a non-negative integer and a radix from 2 to 36\<close>
  "toStringRadix radix n =
     (if n < radix \<or> radix < 2 then [digit36 n]
      else toStringRadix radix (n div radix) @ [digit36 (n mod radix)])"
  by pat_completeness auto
termination
  by (relation "measure snd") auto

declare toStringRadix.simps [simp del]

definition makeRefId :: "string \<Rightarrow> string \<Rightarrow> string option \<Rightarrow> string option \<Rightarrow> string" where
  "makeRefId fid sel h n =
     (let base = fid @ ''|'' @ sel @ ''|'' @ orEmpty h @ ''|'' @ orEmpty n;
          hash = hashString base
      in ''r'' @ fid @ ''-'' @ toStringRadix 36 (nat \<bar>sint hash\<bar>))"

section \<open>PageSnapshot: the document a frame shows\<close>

text \<open>
  An element of the rendered document, with what the analysers read from it: its tag
  name, its attributes, its \<open>innerText\<close>, its bounding client rectangle, the selectors
  computed for it in its document, its resolved \<open>href\<close> property (the empty string when
  it has none) and its child elements in document order. The analysers have two
  selector generators, both called \<open>cssFor\<close> in the code: that of \<open>getClickables\<close> and
  \<open>getListBlocks\<close> (a unique id, else a \<open>data-\<close> attribute, else a path of tags with
  classes) is the field \<open>cssFor\<close>, and that of \<open>getPaginationCandidates\<close> and \<open>getForms\<close>
  (a unique id, else a path of tags) is the field \<open>cssPath\<close>.
\<close>

record Rect =
  rx :: real
  ry :: real
  width :: real
  height :: real

datatype Element =
  Element (tagName: string) (attrs: "(string \<times> string) list") (innerText: string)
    (rect: Rect) (cssFor: string) (cssPath: string) (hrefProp: string)
    (children: "Element list")

definition getAttribute :: "Element \<Rightarrow> string \<Rightarrow> string option" where
  "getAttribute el a = map_of (attrs el) a"

definition localName :: "Element \<Rightarrow> string" where
  "localName el = toLowerCase (tagName el)"

fun splitWords :: "string \<Rightarrow> string \<Rightarrow> string list" where
  \<comment> \<open>\<open>s.split(/\s+/).filter(Boolean)\<close>, the word being read as accumulator\<close>
  "splitWords cur [] = (if cur = [] then [] else [cur])"
| "splitWords cur (c # cs) =
     (if isSpace c then (if cur = [] then splitWords [] cs else cur # splitWords [] cs)
      else splitWords (cur @ [c]) cs)"

definition classList :: "Element \<Rightarrow> string list" where
  "classList el = splitWords [] (orEmpty (getAttribute el ''class''))"

fun elements :: "Element \<Rightarrow> Element list" where
  \<comment> \<open>the element and its descendants in document order\<close>
  "elements (Element t a i r s p h ks) = Element t a i r s p h ks # concat (map elements ks)"

definition descendants :: "Element \<Rightarrow> Element list" where
  \<comment> \<open>what \<open>el.querySelectorAll('*')\<close> ranges over\<close>
  "descendants el = concat (map elements (children el))"

definition matchesLink :: "Element \<Rightarrow> bool" where
  \<comment> \<open>the selector \<open>a, [role=link]\<close>\<close>
  "matchesLink el = (localName el = ''a'' \<or> getAttribute el ''role'' = Some ''link'')"

definition matchesContainer :: "Element \<Rightarrow> bool" where
  \<comment> \<open>the selector \<open>main, .content, body\<close>\<close>
  "matchesContainer el =
     (localName el = ''main'' \<or> ''content'' \<in> set (classList el) \<or> localName el = ''body'')"

definition linkText :: "Element \<Rightarrow> string" where
  \<comment> \<open>\<open>el.innerText || el.getAttribute('aria-label') || ''\<close>\<close>
  "linkText el = (if innerText el \<noteq> [] then innerText el else orEmpty (getAttribute el ''aria-label''))"

definition area :: "Element \<Rightarrow> real" where
  "area el = width (rect el) * height (rect el)"

definition bareRef :: "string \<Rightarrow> RawRef" where
  \<comment> \<open>the object literal \<open>{ selector }\<close>\<close>
  "bareRef sel = \<lparr>selector = sel, role = None, name = None, href = None, visible = None, bbox = None\<rparr>"

section \<open>PageSnapshot.getListBlocks\<close>

definition signature :: "Element \<Rightarrow> nat \<times> string list" where
  \<comment> \<open>\<open>JSON.stringify({ k: kids.length, tags: kids.slice(0,6).map(k => k.tagName) })\<close>:
     the string determines the pair and the pair the string.\<close>
  "signature el = (length (children el), map tagName (take 6 (children el)))"

fun addToGroup :: "'k \<Rightarrow> 'v \<Rightarrow> ('k \<times> 'v list) list \<Rightarrow> ('k \<times> 'v list) list" where
  \<comment> \<open>\<open>arr = groups.get(s) || []; arr.push(k); groups.set(s, arr)\<close> on a Map, which
     keeps its keys in the order of their first insertion\<close>
  "addToGroup s k [] = [(s, [k])]"
| "addToGroup s k ((s', arr) # groups) =
     (if s = s' then (s', arr @ [k]) # groups else (s', arr) # addToGroup s k groups)"

definition groupKids :: "Element list \<Rightarrow> ((nat \<times> string list) \<times> Element list) list" where
  "groupKids kids = foldl (\<lambda>groups k. addToGroup (signature k) k groups) [] kids"

definition listBlockOf :: "Element list \<Rightarrow> RawRef ListBlock option" where
  \<comment> \<open>the body of the loop over the groups: what one group pushes, if anything\<close>
  "listBlockOf arr =
     (case arr of
        [] \<Rightarrow> None
      | first # _ \<Rightarrow>
          if 8 \<le> length arr then
            (if area first < 200 then None
             else
               let items = filter matchesLink (descendants first) in
               Some \<lparr>listRoot = bareRef (cssFor first),
                     itemCount = length arr,
                     itemLinkSelector = (if items \<noteq> [] then Some ''a, [role=link]'' else None),
                     samples = map (\<lambda>el. clip 80 (linkText el)) (take 3 items)\<rparr>)
          else None)"

definition containerBlocks :: "Element \<Rightarrow> RawRef ListBlock list" where
  "containerBlocks container = List.map_filter listBlockOf (map snd (groupKids (children container)))"

definition getListBlocks :: "Element \<Rightarrow> int \<Rightarrow> RawRef ListBlock list" where
  "getListBlocks doc maxLists' =
     (let containers = filter matchesContainer (elements doc);
          results = concat (map containerBlocks containers)
      in slice0 maxLists' (sort_key (\<lambda>b. - int (itemCount b)) results))"

section \<open>PageSnapshot.getPaginationCandidates and rankPagination\<close>

definition isNextText :: "string \<Rightarrow> bool" where
  \<comment> \<open>\<open>/(next|older|more|\<dots>)/i.test(s)\<close> with the two glyphs U+203A and U+00BB as last
     alternatives: U+00BB is a \<open>char\<close>, and U+203A occurs in no string of the model\<close>
  "isNextText s =
     (let t = toLowerCase s in
      includesStr t ''next'' \<or> includesStr t ''older'' \<or> includesStr t ''more'' \<or>
      includesStr t [CHR 0xBB])"

definition pageParamAt :: "string \<Rightarrow> string \<Rightarrow> bool" where
  \<comment> \<open>\<open>name=\d\<close> at the start of the (lower-cased) rest of the href\<close>
  "pageParamAt rest nm =
     (startsWith rest (nm @ ''='') \<and>
      (case drop (length nm + 1) rest of [] \<Rightarrow> False | d # _ \<Rightarrow> isDigit d))"

fun hasPageParam :: "string \<Rightarrow> bool" where
  \<comment> \<open>\<open>/([?&](page|p|offset|start)=\d+)/i.test(href)\<close>\<close>
  "hasPageParam [] = False"
| "hasPageParam (c # cs) =
     (((c = CHR ''?'' \<or> c = CHR ''&'') \<and>
       list_ex (pageParamAt (toLowerCase cs)) [''page'', ''p'', ''offset'', ''start''])
      \<or> hasPageParam cs)"

definition relNext :: "Element \<Rightarrow> bool" where
  "relNext a = (toLowerCase (orEmpty (getAttribute a ''rel'')) = ''next'')"

definition nearBottom :: "real \<Rightarrow> Element \<Rightarrow> bool" where
  \<comment> \<open>\<open>(r.y + r.height) > (window.innerHeight * 0.6)\<close>\<close>
  "nearBottom innerHeight' a = (ry (rect a) + height (rect a) > innerHeight' * (6 / 10))"

definition paginationScore :: "real \<Rightarrow> Element \<Rightarrow> nat" where
  "paginationScore innerHeight' a =
     (if relNext a then 3 else 0) + (if isNextText (innerText a) then 2 else 0) +
     (if hasPageParam (orEmpty (getAttribute a ''href'')) then 2 else 0) +
     (if nearBottom innerHeight' a then 1 else 0)"

definition isPaginationCandidate :: "Element \<Rightarrow> bool" where
  "isPaginationCandidate a =
     (relNext a \<or> isNextText (innerText a) \<or> hasPageParam (orEmpty (getAttribute a ''href'')))"

definition candidateRef :: "Element \<Rightarrow> RawRef" where
  "candidateRef a =
     \<lparr>selector = cssPath a, role = Some ''link'', name = Some (clip 80 (linkText a)),
      href = Some (hrefProp a), visible = Some True,
      bbox = Some \<lparr>bx = jsRound (rx (rect a)), by_ = jsRound (ry (rect a)),
                   bw = jsRound (width (rect a)), bh = jsRound (height (rect a))\<rparr>\<rparr>"

definition scoredCandidates :: "real \<Rightarrow> Element \<Rightarrow> (RawRef \<times> nat) list" where
  \<comment> \<open>the array \<open>candidates\<close> after the loop over the anchors, each with its \<open>_score\<close>\<close>
  "scoredCandidates innerHeight' doc =
     map (\<lambda>a. (candidateRef a, paginationScore innerHeight' a))
       (filter isPaginationCandidate (filter (\<lambda>el. localName el = ''a'') (elements doc)))"

definition getPaginationCandidates :: "real \<Rightarrow> Element \<Rightarrow> RawRef list" where
  \<comment> \<open>\<open>candidates.sort((a,b) => b._score - a._score)\<close> is a stable sort\<close>
  "getPaginationCandidates innerHeight' doc =
     map fst (slice0 4 (sort_key (\<lambda>c. - int (snd c)) (scoredCandidates innerHeight' doc)))"

definition paginationKey :: "NodeRef \<Rightarrow> string" where
  "paginationKey c = orEmpty (href c) @ ''|'' @ selector c @ ''|'' @ frameId c"

fun rankFrom :: "string list \<Rightarrow> NodeRef list \<Rightarrow> NodeRef list" where
  \<comment> \<open>the loop of \<open>rankPagination\<close>, with the keys seen so far\<close>
  "rankFrom seen [] = []"
| "rankFrom seen (c # cs) =
     (if paginationKey c \<in> set seen then rankFrom seen cs
      else c # rankFrom (paginationKey c # seen) cs)"

definition rankPagination :: "NodeRef list \<Rightarrow> NodeRef list" where
  "rankPagination cands = rankFrom [] cands"

section \<open>PageSnapshot.build\<close>

text \<open>
  A frame, as the five analysers see it. \<open>getListBlocks\<close> and
  \<open>getPaginationCandidates\<close> are modelled above on the frame's document; what
  \<open>getHeadings\<close>, \<open>getClickables\<close> and \<open>getForms\<close> return is taken as given,
  for every value of their limits.
\<close>

record Frame =
  getHeadings :: "string list"
  getClickables :: "int \<Rightarrow> RawRef list"
  document :: Element
  innerHeight :: real
  getForms :: "int \<Rightarrow> int \<Rightarrow> RawRef FormBlock list"

text \<open>A page: its main frame and its other frames in the order of \<open>page.frames()\<close>,
  each with whether \<open>f.evaluate(() => 1)\<close> returns (it throws on a cross-origin frame).\<close>

record Page =
  pageUrl :: string
  pageTitle :: "string option"
  mainFrame :: Frame
  childFrames :: "(Frame \<times> bool) list"
  densityHints :: "real \<times> real"

record LimitsOpt =
  optMaxControls :: "int option"
  optMaxLists :: "int option"
  optMaxForms :: "int option"
  optMaxFormFields :: "int option"

record ExtractorOptions =
  limits :: "LimitsOpt option"
  includeSameOriginIframes :: "bool option"

definition mergeLimits :: "Limits \<Rightarrow> LimitsOpt option \<Rightarrow> Limits" where
  \<comment> \<open>\<open>{ ...DEFAULT_LIMITS, ...(opts.limits || {}) }\<close>\<close>
  "mergeLimits d o' =
     (case o' of
        None \<Rightarrow> d
      | Some l \<Rightarrow>
          \<lparr>maxControls = (case optMaxControls l of None \<Rightarrow> maxControls d | Some v \<Rightarrow> v),
           maxLists = (case optMaxLists l of None \<Rightarrow> maxLists d | Some v \<Rightarrow> v),
           maxForms = (case optMaxForms l of None \<Rightarrow> maxForms d | Some v \<Rightarrow> v),
           maxFormFields = (case optMaxFormFields l of None \<Rightarrow> maxFormFields d | Some v \<Rightarrow> v)\<rparr>)"

fun collectFrames :: "(Frame \<times> bool) list \<Rightarrow> (Frame \<times> string) list \<Rightarrow> (Frame \<times> string) list" where
  \<comment> \<open>\<open>frames.push({ frame: f, frameId: `f${frames.length}` })\<close> for each frame that evaluates\<close>
  "collectFrames [] frames = frames"
| "collectFrames ((f, sameOrigin) # fs) frames =
     collectFrames fs
       (if sameOrigin then frames @ [(f, ''f'' @ toStringRadix 10 (length frames))] else frames)"

definition nodeRefOf :: "string \<Rightarrow> RawRef \<Rightarrow> NodeRef" where
  \<comment> \<open>\<open>{ ...r, refId: id, frameId }\<close>\<close>
  "nodeRefOf fid r =
     \<lparr>selector = selector r, role = role r, name = name r, href = href r,
      visible = visible r, bbox = bbox r,
      refId = makeRefId fid (selector r) (href r) (name r), frameId = fid\<rparr>"

definition addRef :: "string \<Rightarrow> RawRef \<Rightarrow> RefMap \<Rightarrow> NodeRef \<times> RefMap" where
  \<comment> \<open>the closure \<open>addRef\<close>: returns the NodeRef and writes \<open>refMap[id]\<close>\<close>
  "addRef fid r m =
     (let nr = nodeRefOf fid r
      in (nr, m(refId nr \<mapsto> \<lparr>entrySelector = selector r, entryFrameId = fid\<rparr>)))"

fun mapWith :: "('a \<Rightarrow> 's \<Rightarrow> 'b \<times> 's) \<Rightarrow> 'a list \<Rightarrow> 's \<Rightarrow> 'b list \<times> 's" where
  \<comment> \<open>\<open>xs.map(f)\<close> for an \<open>f\<close> that writes the reference map\<close>
  "mapWith f [] m = ([], m)"
| "mapWith f (x # xs) m =
     (let (y, m1) = f x m; (ys, m2) = mapWith f xs m1 in (y # ys, m2))"

definition addListRef :: "string \<Rightarrow> RawRef ListBlock \<Rightarrow> RefMap \<Rightarrow> NodeRef ListBlock \<times> RefMap" where
  "addListRef fid lb m =
     (let (nr, m1) = addRef fid (listRoot lb) m
      in (\<lparr>listRoot = nr, itemCount = itemCount lb, itemLinkSelector = itemLinkSelector lb,
            samples = samples lb\<rparr>, m1))"

definition addFieldRef :: "string \<Rightarrow> RawRef FormField \<Rightarrow> RefMap \<Rightarrow> NodeRef FormField \<times> RefMap" where
  "addFieldRef fid ff m =
     (let (nr, m1) = addRef fid (inputRef ff) m
      in (\<lparr>fieldLabel = fieldLabel ff, inputRef = nr\<rparr>, m1))"

definition addFormRefs :: "string \<Rightarrow> RawRef FormBlock \<Rightarrow> RefMap \<Rightarrow> NodeRef FormBlock \<times> RefMap" where
  "addFormRefs fid fb m =
     (let (f, m1) = addRef fid (formRef fb) m;
          (ffs, m2) = mapWith (addFieldRef fid) (formFields fb) m1;
          (sub, m3) = (case submitRef fb of
                         None \<Rightarrow> (None, m2)
                       | Some sr \<Rightarrow> (let (nr, m') = addRef fid sr m2 in (Some nr, m')))
      in (\<lparr>formRef = f, formFields = ffs, submitRef = sub\<rparr>, m3))"

record Acc =
  accRefMap :: RefMap
  accLists :: "NodeRef ListBlock list"
  accControls :: "NodeRef list"
  accPagination :: "NodeRef list"
  accForms :: "NodeRef FormBlock list"
  accHeadings :: "string list"

definition emptyAcc :: Acc where
  "emptyAcc = \<lparr>accRefMap = Map.empty, accLists = [], accControls = [], accPagination = [],
               accForms = [], accHeadings = []\<rparr>"

definition frameStep :: "Limits \<Rightarrow> Acc \<Rightarrow> Frame \<times> string \<Rightarrow> Acc" where
  \<comment> \<open>the body of the loop over the frames\<close>
  "frameStep lims acc ff =
     (let frame = fst ff; fid = snd ff;
          frameHeadings = getHeadings frame;
          frameControls = getClickables frame (maxControls lims);
          frameLists = getListBlocks (document frame) (maxLists lims);
          framePagination = getPaginationCandidates (innerHeight frame) (document frame);
          frameForms = getForms frame (maxForms lims) (maxFormFields lims);
          (cs, m1) = mapWith (addRef fid) frameControls (accRefMap acc);
          (ls, m2) = mapWith (addListRef fid) frameLists m1;
          (ps, m3) = mapWith (addRef fid) framePagination m2;
          (fs, m4) = mapWith (addFormRefs fid) frameForms m3
      in \<lparr>accRefMap = m4, accLists = accLists acc @ ls, accControls = accControls acc @ cs,
           accPagination = accPagination acc @ ps, accForms = accForms acc @ fs,
           accHeadings = accHeadings acc @ frameHeadings\<rparr>)"

definition pageFrames :: "ExtractorOptions \<Rightarrow> Page \<Rightarrow> (Frame \<times> string) list" where
  "pageFrames opts page =
     (if includeSameOriginIframes opts \<noteq> Some False
      then collectFrames (childFrames page) [(mainFrame page, ''main'')]
      else [(mainFrame page, ''main'')])"

definition build :: "ExtractorOptions \<Rightarrow> Page \<Rightarrow> LLMSnapshot" where
  "build opts page =
     (let lims = mergeLimits DEFAULT_LIMITS (limits opts);
          frames = pageFrames opts page;
          acc = foldl (frameStep lims) emptyAcc frames;
          pagination' = slice0 2 (rankPagination (accPagination acc))
      in \<lparr>compact =
            \<lparr>url = pageUrl page,
             title = orEmpty (pageTitle page),
             headings = slice0 6 (dedupe (accHeadings acc)),
             lists = slice0 (maxLists lims) (accLists acc),
             controls = slice0 (maxControls lims) (accControls acc),
             pagination = pagination',
             forms = slice0 (maxForms lims) (accForms acc),
             hints = densityHints page\<rparr>,
          refMap = accRefMap acc,
          frameCount = length frames\<rparr>)"

section \<open>The references of a snapshot\<close>

text \<open>
  Names for what the properties of \<open>build\<close> talk about: the NodeRefs of a compact
  summary, the references \<open>addRef\<close> is called on (in call order), and the write
  \<open>refMap[id] = { selector, frameId }\<close> on its own.
\<close>

definition formRefs :: "'r FormBlock \<Rightarrow> 'r list" where
  "formRefs fb =
     formRef fb # map inputRef (formFields fb) @ (case submitRef fb of None \<Rightarrow> [] | Some s \<Rightarrow> [s])"

definition compactRefs :: "Compact \<Rightarrow> NodeRef list" where
  "compactRefs c =
     controls c @ map listRoot (lists c) @ pagination c @ concat (map formRefs (forms c))"

definition frameRawRefs :: "Limits \<Rightarrow> Frame \<Rightarrow> RawRef list" where
  "frameRawRefs lims frame =
     getClickables frame (maxControls lims)
     @ map listRoot (getListBlocks (document frame) (maxLists lims))
     @ getPaginationCandidates (innerHeight frame) (document frame)
     @ concat (map formRefs (getForms frame (maxForms lims) (maxFormFields lims)))"

definition registered :: "ExtractorOptions \<Rightarrow> Page \<Rightarrow> NodeRef list" where
  "registered opts page =
     concat (map (\<lambda>ff. map (nodeRefOf (snd ff))
                          (frameRawRefs (mergeLimits DEFAULT_LIMITS (limits opts)) (fst ff)))
                 (pageFrames opts page))"

definition writeRef :: "RefMap \<Rightarrow> NodeRef \<Rightarrow> RefMap" where
  "writeRef m nr = m(refId nr \<mapsto> \<lparr>entrySelector = selector nr, entryFrameId = frameId nr\<rparr>)"

definition listOf :: "string \<Rightarrow> RawRef ListBlock \<Rightarrow> NodeRef ListBlock" where
  "listOf fid lb = \<lparr>listRoot = nodeRefOf fid (listRoot lb), itemCount = itemCount lb,
     itemLinkSelector = itemLinkSelector lb, samples = samples lb\<rparr>"

definition fieldOf :: "string \<Rightarrow> RawRef FormField \<Rightarrow> NodeRef FormField" where
  "fieldOf fid ff = \<lparr>fieldLabel = fieldLabel ff, inputRef = nodeRefOf fid (inputRef ff)\<rparr>"

definition formOf :: "string \<Rightarrow> RawRef FormBlock \<Rightarrow> NodeRef FormBlock" where
  "formOf fid fb = \<lparr>formRef = nodeRefOf fid (formRef fb),
     formFields = map (fieldOf fid) (formFields fb),
     submitRef = map_option (nodeRefOf fid) (submitRef fb)\<rparr>"

definition accRefs :: "Acc \<Rightarrow> NodeRef list" where
  "accRefs acc = accControls acc @ map listRoot (accLists acc) @ accPagination acc
                 @ concat (map formRefs (accForms acc))"

definition framePagination :: "Frame \<times> string \<Rightarrow> NodeRef list" where
  "framePagination ff =
     map (nodeRefOf (snd ff)) (getPaginationCandidates (innerHeight (fst ff)) (document (fst ff)))"

section \<open>The URL class of the platform\<close>

text \<open>
  \<open>ScrapingEngine\<close> parses, edits and prints URLs with the platform's \<open>URL\<close> class,
  which is no code of the repository. The class is a parameter of the model: a record
  of the operations the engine calls, over a type \<open>'u\<close> of URL objects. An assignment to
  a property of a URL object is a function that returns the object as changed.

  \<^item> \<open>newURL u None\<close> is \<open>new URL(u)\<close> and \<open>newURL u (Some base)\<close> is \<open>new URL(u, base)\<close>;
    the result \<open>None\<close> is the \<open>TypeError\<close> the constructor throws;
  \<^item> \<open>toStringOf\<close> is \<open>url.toString()\<close>;
  \<^item> \<open>protocolOf\<close>, \<open>hostnameOf\<close> and \<open>hostOf\<close> read \<open>url.protocol\<close>, \<open>url.hostname\<close> and
    \<open>url.host\<close>; \<open>withProtocol v\<close> and \<open>withHostname v\<close> are \<open>url.protocol = v\<close> and
    \<open>url.hostname = v\<close>;
  \<^item> \<open>clearHash\<close> is \<open>url.hash = ''\<close> and \<open>clearSearch\<close> is \<open>url.search = ''\<close>;
  \<^item> \<open>deleteParam k\<close> is \<open>url.searchParams.delete(k)\<close> and \<open>paramKeys\<close> is
    \<open>[...url.searchParams.keys()]\<close>.
\<close>

record 'u URLClass =
  newURL :: "string \<Rightarrow> string option \<Rightarrow> 'u option"
  toStringOf :: "'u \<Rightarrow> string"
  protocolOf :: "'u \<Rightarrow> string"
  withProtocol :: "string \<Rightarrow> 'u \<Rightarrow> 'u"
  hostnameOf :: "'u \<Rightarrow> string"
  withHostname :: "string \<Rightarrow> 'u \<Rightarrow> 'u"
  hostOf :: "'u \<Rightarrow> string"
  clearHash :: "'u \<Rightarrow> 'u"
  clearSearch :: "'u \<Rightarrow> 'u"
  deleteParam :: "string \<Rightarrow> 'u \<Rightarrow> 'u"
  paramKeys :: "'u \<Rightarrow> string list"

definition trackingParams :: "string list" where
  "trackingParams =
     [''utm_source'', ''utm_medium'', ''utm_campaign'', ''utm_term'', ''utm_content'',
      ''gclid'', ''fbclid'', ''mc_cid'', ''mc_eid'', ''msclkid'', ''_hsenc'', ''_hsmi'',
      ''ref'', ''ref_src'', ''ref_url'', ''igshid'']"

definition canonicalize :: "'u URLClass \<Rightarrow> 'u \<Rightarrow> 'u" where
  \<comment> \<open>the body of the \<open>try\<close> block of \<open>canonicalForDedupe\<close>, on the parsed URL\<close>
  "canonicalize U url0 =
     (let url1 = clearHash U url0;
          url2 = fold (deleteParam U) trackingParams url1;
          url3 = (if paramKeys U url2 = [] then clearSearch U url2 else url2);
          url4 = withProtocol U (toLowerCase (protocolOf U url3)) url3;
          url5 = withHostname U (toLowerCase (hostnameOf U url4)) url4
      in url5)"

definition canonicalForDedupe :: "'u URLClass \<Rightarrow> string \<Rightarrow> string \<Rightarrow> string" where
  \<comment> \<open>the second argument is \<open>this.state.currentUrl\<close>; the \<open>catch\<close> returns \<open>u || ''\<close>,
     which is \<open>u\<close>\<close>
  "canonicalForDedupe U currentUrl u =
     (case newURL U u (Some currentUrl) of
        None \<Rightarrow> u
      | Some parsed \<Rightarrow> toStringOf U (canonicalize U parsed))"

definition toAbsoluteUrl :: "'u URLClass \<Rightarrow> string \<Rightarrow> string \<Rightarrow> string" where
  "toAbsoluteUrl U currentUrl u =
     (case newURL U u (Some currentUrl) of None \<Rightarrow> u | Some parsed \<Rightarrow> toStringOf U parsed)"


section \<open>A reference implementation of the URL class\<close>

text \<open>
  The sample runs need URLs that are parsed and printed. The reference implementation
  is the \<open>URL\<close> class on the URLs on which its parser changes nothing but the case of the
  scheme and of the host: \<open>http\<close> and \<open>https\<close> URLs of the form
  \<open>scheme://host/path?query#fragment\<close> whose host is a name of letters, digits, dots and
  hyphens ending in a label of letters (no port, no user, no address in digits, no
  punycode label), whose path has no dot segment and none of the characters the parser
  would escape, and whose query consists of characters that the form encoding of
  \<open>URLSearchParams\<close> leaves alone, every pair with at most one equals sign. A reference
  without a scheme is resolved against the base as the parser does. The constructor of
  the reference implementation fails on every other string; no property of the engine
  is derived from that.
\<close>

record URL =
  scheme :: string
  host :: string
  pathname :: string
  query :: "string option"
  fragment :: "string option"

definition isAlpha :: "char \<Rightarrow> bool" where
  "isAlpha c = (c \<in> set ''abcdefghijklmnopqrstuvwxyzABCDEFGHIJKLMNOPQRSTUVWXYZ'')"

definition isAlnum :: "char \<Rightarrow> bool" where
  "isAlnum c = (isAlpha c \<or> isDigit c)"

definition schemeChar :: "char \<Rightarrow> bool" where
  "schemeChar c = (isAlnum c \<or> c \<in> set ''+-.'')"

definition hostChar :: "char \<Rightarrow> bool" where
  "hostChar c = (isAlnum c \<or> c \<in> set ''-.'')"

definition pathChar :: "char \<Rightarrow> bool" where
  "pathChar c = (isAlnum c \<or> c \<in> set ''-._~!$&()*+,;=:@/'' \<or> c = CHR 0x27)"

definition formChar :: "char \<Rightarrow> bool" where
  "formChar c = (isAlnum c \<or> c \<in> set ''*-._'')"

definition queryChar :: "char \<Rightarrow> bool" where
  "queryChar c = (formChar c \<or> c \<in> set ''=&'')"

definition fragmentChar :: "char \<Rightarrow> bool" where
  "fragmentChar c = (pathChar c \<or> c \<in> set ''?#'')"

fun splitOn :: "char \<Rightarrow> string \<Rightarrow> string list" where
  \<comment> \<open>\<open>s.split(c)\<close>: the pieces between the separators, at least one\<close>
  "splitOn c [] = [[]]"
| "splitOn c (x # xs) =
     (if x = c then [] # splitOn c xs
      else (case splitOn c xs of [] \<Rightarrow> [[x]] | w # ws \<Rightarrow> (x # w) # ws))"

fun joinWith :: "char \<Rightarrow> string list \<Rightarrow> string" where
  "joinWith c [] = []"
| "joinWith c [w] = w"
| "joinWith c (w # v # ws) = w @ c # joinWith c (v # ws)"

definition validHost :: "string \<Rightarrow> bool" where
  "validHost h =
     (h \<noteq> [] \<and> list_all hostChar h \<and>
      (let l = last (splitOn (CHR ''.'') h) in l \<noteq> [] \<and> list_all isAlpha l) \<and>
      \<not> includesStr (toLowerCase h) ''xn--'')"

definition validPath :: "string \<Rightarrow> bool" where
  "validPath p =
     (startsWith p ''/'' \<and> list_all pathChar p \<and>
      ''.'' \<notin> set (splitOn (CHR ''/'') p) \<and> ''..'' \<notin> set (splitOn (CHR ''/'') p))"

definition validQuery :: "string \<Rightarrow> bool" where
  "validQuery q =
     (list_all queryChar q \<and>
      list_all (\<lambda>piece. length (filter (\<lambda>c. c = CHR ''='') piece) \<le> 1) (splitOn (CHR ''&'') q))"

definition validFragment :: "string \<Rightarrow> bool" where
  "validFragment f = list_all fragmentChar f"

definition wellFormed :: "URL \<Rightarrow> bool" where
  "wellFormed u =
     (scheme u \<in> set [''http'', ''https''] \<and>
      validHost (host u) \<and> toLowerCase (host u) = host u \<and>
      validPath (pathname u) \<and>
      (case query u of None \<Rightarrow> True | Some q \<Rightarrow> validQuery q) \<and>
      (case fragment u of None \<Rightarrow> True | Some f \<Rightarrow> validFragment f))"

definition splitTail :: "string \<Rightarrow> string \<times> string option \<times> string option" where
  \<comment> \<open>a path, then \<open>?query\<close> if any, then \<open>#fragment\<close> if any\<close>
  "splitTail s =
     (let p = takeWhile (\<lambda>c. c \<noteq> CHR ''?'' \<and> c \<noteq> CHR ''#'') s;
          r = dropWhile (\<lambda>c. c \<noteq> CHR ''?'' \<and> c \<noteq> CHR ''#'') s;
          q = (if startsWith r ''?'' then Some (takeWhile (\<lambda>c. c \<noteq> CHR ''#'') (tl r)) else None);
          r' = dropWhile (\<lambda>c. c \<noteq> CHR ''#'') r;
          f = (if startsWith r' ''#'' then Some (tl r') else None)
      in (p, q, f))"

definition hasScheme :: "string \<Rightarrow> bool" where
  "hasScheme s =
     (case takeWhile schemeChar s of
        [] \<Rightarrow> False
      | c # _ \<Rightarrow> isAlpha c \<and> startsWith (dropWhile schemeChar s) '':'')"

definition checked :: "URL \<Rightarrow> URL option" where
  "checked u = (if wellFormed u then Some u else None)"

definition withAuthority :: "string \<Rightarrow> string \<Rightarrow> URL option" where
  \<comment> \<open>what follows \<open>scheme://\<close>: the host, then the path, query and fragment\<close>
  "withAuthority sch s =
     (let h = takeWhile (\<lambda>c. c \<noteq> CHR ''/'' \<and> c \<noteq> CHR ''?'' \<and> c \<noteq> CHR ''#'') s;
          (p, q, f) = splitTail (dropWhile (\<lambda>c. c \<noteq> CHR ''/'' \<and> c \<noteq> CHR ''?'' \<and> c \<noteq> CHR ''#'') s)
      in checked \<lparr>scheme = sch, host = toLowerCase h,
                   pathname = (if p = [] then ''/'' else p), query = q, fragment = f\<rparr>)"

definition parseAbsolute :: "string \<Rightarrow> URL option" where
  \<comment> \<open>\<open>new URL(s)\<close>\<close>
  "parseAbsolute s =
     (let sch = toLowerCase (takeWhile schemeChar s); r = dropWhile schemeChar s in
      if hasScheme s \<and> sch \<in> set [''http'', ''https''] \<and> startsWith r ''://''
      then withAuthority sch (drop 3 r)
      else None)"

definition dirname :: "string \<Rightarrow> string" where
  \<comment> \<open>the path up to and including its last slash\<close>
  "dirname p = rev (dropWhile (\<lambda>c. c \<noteq> CHR ''/'') (rev p))"

definition resolve :: "URL \<Rightarrow> string \<Rightarrow> URL option" where
  \<comment> \<open>a reference without a scheme, against the parsed base\<close>
  "resolve base s =
     (if startsWith s ''//'' then withAuthority (scheme base) (drop 2 s)
      else
        let (p, q, f) = splitTail s in
        checked
          \<lparr>scheme = scheme base, host = host base,
           pathname = (if p = [] then pathname base
                       else if startsWith p ''/'' then p
                       else dirname (pathname base) @ p),
           query = (if p = [] \<and> q = None then query base else q),
           fragment = f\<rparr>)"

definition new_URL :: "string \<Rightarrow> string \<Rightarrow> URL option" where
  \<comment> \<open>\<open>new URL(u, base)\<close>; \<open>None\<close> is the TypeError\<close>
  "new_URL u base =
     (case parseAbsolute base of
        None \<Rightarrow> None
      | Some b \<Rightarrow> if hasScheme u then parseAbsolute u else resolve b u)"

definition pairOf :: "string \<Rightarrow> string \<times> string" where
  "pairOf piece =
     (takeWhile (\<lambda>c. c \<noteq> CHR ''='') piece, drop 1 (dropWhile (\<lambda>c. c \<noteq> CHR ''='') piece))"

definition parsePairs :: "string \<Rightarrow> (string \<times> string) list" where
  "parsePairs q = map pairOf (filter (\<lambda>piece. piece \<noteq> []) (splitOn (CHR ''&'') q))"

definition serializePairs :: "(string \<times> string) list \<Rightarrow> string" where
  "serializePairs l = joinWith (CHR ''&'') (map (\<lambda>p. fst p @ CHR ''='' # snd p) l)"

definition searchParams :: "URL \<Rightarrow> (string \<times> string) list" where
  "searchParams u = parsePairs (orEmpty (query u))"

definition searchParams_delete :: "string \<Rightarrow> URL \<Rightarrow> URL" where
  \<comment> \<open>\<open>url.searchParams.delete(k)\<close>: removes the pairs named \<open>k\<close> and writes the list
     back as the URL's query, which is null when the list is empty\<close>
  "searchParams_delete k u =
     (let l = filter (\<lambda>p. fst p \<noteq> k) (searchParams u)
      in u\<lparr>query := (if l = [] then None else Some (serializePairs l))\<rparr>)"

definition searchParams_keys :: "URL \<Rightarrow> string list" where
  "searchParams_keys u = map fst (searchParams u)"

definition hash_clear :: "URL \<Rightarrow> URL" where
  \<comment> \<open>\<open>url.hash = ''\<close>\<close>
  "hash_clear u = u\<lparr>fragment := None\<rparr>"

definition search_clear :: "URL \<Rightarrow> URL" where
  \<comment> \<open>\<open>url.search = ''\<close>\<close>
  "search_clear u = u\<lparr>query := None\<rparr>"

definition protocol :: "URL \<Rightarrow> string" where
  "protocol u = scheme u @ '':''"

definition set_protocol :: "string \<Rightarrow> URL \<Rightarrow> URL" where
  \<comment> \<open>\<open>url.protocol = v\<close>: ignored unless \<open>v\<close> names a scheme of the same kind\<close>
  "set_protocol v u =
     (let s = toLowerCase (takeWhile (\<lambda>c. c \<noteq> CHR '':'') v)
      in if s \<in> set [''http'', ''https''] then u\<lparr>scheme := s\<rparr> else u)"

definition hostname :: "URL \<Rightarrow> string" where
  "hostname u = host u"

definition set_hostname :: "string \<Rightarrow> URL \<Rightarrow> URL" where
  \<comment> \<open>\<open>url.hostname = v\<close>: ignored when \<open>v\<close> is not a host\<close>
  "set_hostname v u = (if validHost v then u\<lparr>host := toLowerCase v\<rparr> else u)"

definition URL_toString :: "URL \<Rightarrow> string" where
  "URL_toString u =
     scheme u @ ''://'' @ host u @ pathname u
     @ (case query u of None \<Rightarrow> [] | Some q \<Rightarrow> CHR ''?'' # q)
     @ (case fragment u of None \<Rightarrow> [] | Some f \<Rightarrow> CHR ''#'' # f)"

definition goodPairs :: "(string \<times> string) list \<Rightarrow> bool" where
  "goodPairs l = (\<forall>p \<in> set l. CHR ''='' \<notin> set (fst p) \<and> CHR ''&'' \<notin> set (fst p) \<and> CHR ''&'' \<notin> set (snd p))"

definition writeBack :: "(string \<times> string) list \<Rightarrow> string option" where
  \<comment> \<open>the query a list of pairs is written back as\<close>
  "writeBack l = (if l = [] then None else Some (serializePairs l))"

definition keptPairs :: "URL \<Rightarrow> (string \<times> string) list" where
  "keptPairs u = filter (\<lambda>p. fst p \<notin> set trackingParams) (searchParams u)"

definition referenceURL :: "URL URLClass" where
  "referenceURL =
     \<lparr>newURL = (\<lambda>u base. case base of None \<Rightarrow> parseAbsolute u | Some b \<Rightarrow> new_URL u b),
      toStringOf = URL_toString,
      protocolOf = protocol, withProtocol = set_protocol,
      hostnameOf = hostname, withHostname = set_hostname, hostOf = hostname,
      clearHash = hash_clear, clearSearch = search_clear,
      deleteParam = searchParams_delete, paramKeys = searchParams_keys\<rparr>"


section \<open>ScrapingEngine: records and state\<close>

text \<open>
  A record as an extraction tier produces it. The code reads and writes its \<open>title\<close>,
  \<open>href\<close>, \<open>snippet\<close>, \<open>image\<close>, \<open>tags\<close> and \<open>url\<close>; whatever else it holds
  (actions, selectors, container, signals, fields) is the rest of the record scheme and
  is carried along unchanged, as the spread \<open>{ ...r, href, title, image }\<close> does.
\<close>

record Row =
  itemTitle :: "string option"
  itemHref :: "string option"
  itemSnippet :: "string option"
  itemImage :: "string option"
  itemTags :: "string list option"
  itemUrl :: "string option"

record 'r ExtractedItem =
  data :: 'r
  foundAt :: string

record ScrapingError =
  errorType :: string
  message :: string
  errorUrl :: string

record 'r ScrapingState =
  currentUrl :: string
  visitedUrls :: "string set"
  extractedItems :: "'r ExtractedItem list"
  currentPage :: int
  errors :: "ScrapingError list"

text \<open>What the code reads of the schema and of the configuration.\<close>

record Settings =
  baseUrl :: string
  startPath :: "string option"
  maxPages :: "int option"
  maxItems :: "int option"
  followLinks :: bool
  schemaSelectors :: bool
  schemaPagination :: bool
  retryAttempts :: "int option"
  retryDelay :: "int option"

definition truthyNum :: "int option \<Rightarrow> bool" where
  \<comment> \<open>a number in a condition: undefined and 0 are falsy\<close>
  "truthyNum n = (case n of None \<Rightarrow> False | Some v \<Rightarrow> v \<noteq> 0)"

definition MAX_SAFE_INTEGER :: int where
  "MAX_SAFE_INTEGER = 9007199254740991"

section \<open>ScrapingEngine: cleaning and deduplication\<close>

fun indexOfFrom :: "nat \<Rightarrow> string \<Rightarrow> string \<Rightarrow> nat option" where
  \<comment> \<open>the first position of \<open>pat\<close> in the string, counted from \<open>i\<close>\<close>
  "indexOfFrom i [] pat = None"
| "indexOfFrom i (c # cs) pat =
     (if startsWith (c # cs) pat then Some i else indexOfFrom (Suc i) cs pat)"

definition indexFrom1 :: "string \<Rightarrow> string \<Rightarrow> nat option" where
  \<comment> \<open>\<open>u.indexOf(pat, 1)\<close> for a pattern that is not empty; \<open>None\<close> is -1\<close>
  "indexFrom1 u pat = (case u of [] \<Rightarrow> None | _ # cs \<Rightarrow> indexOfFrom 1 cs pat)"

definition fixDoubledAbsolute :: "string \<Rightarrow> string" where
  "fixDoubledAbsolute u =
     (case indexFrom1 u ''https://'' of
        Some i \<Rightarrow> drop i u
      | None \<Rightarrow> (case indexFrom1 u ''http://'' of Some i \<Rightarrow> drop i u | None \<Rightarrow> u))"

definition isHttpUrl :: "string \<Rightarrow> bool" where
  \<comment> \<open>\<open>/^https?:\/\//i.test(v)\<close>\<close>
  "isHttpUrl v = (startsWith (toLowerCase v) ''http://'' \<or> startsWith (toLowerCase v) ''https://'')"

definition isHttpScheme :: "string \<Rightarrow> bool" where
  \<comment> \<open>\<open>/^https?:/i.test(u)\<close>\<close>
  "isHttpScheme u = (startsWith (toLowerCase u) ''http:'' \<or> startsWith (toLowerCase u) ''https:'')"

definition isDataUrl :: "string \<Rightarrow> bool" where
  \<comment> \<open>\<open>/^data:/i.test(u)\<close>\<close>
  "isDataUrl u = startsWith (toLowerCase u) ''data:''"

fun isSvg :: "string \<Rightarrow> bool" where
  \<comment> \<open>\<open>/\.svg(\?|#|$)/i.test(u)\<close>\<close>
  "isSvg [] = False"
| "isSvg (c # cs) =
     ((startsWith (toLowerCase (c # cs)) ''.svg'' \<and>
       (case drop 4 (c # cs) of [] \<Rightarrow> True | d # _ \<Rightarrow> d = CHR ''?'' \<or> d = CHR ''#''))
      \<or> isSvg cs)"

definition absolutize :: "'u URLClass \<Rightarrow> string \<Rightarrow> string \<Rightarrow> string" where
  "absolutize U u base =
     (let v = trim u in
      if v = [] then v
      else if isHttpUrl v then v
      else if startsWith v ''//'' then
        (case newURL U base None of Some b \<Rightarrow> protocolOf U b @ v | None \<Rightarrow> ''https:'' @ v)
      else (case newURL U v (Some base) of Some parsed \<Rightarrow> toStringOf U parsed | None \<Rightarrow> v))"

definition cleanImageUrl :: "'u URLClass \<Rightarrow> string option \<Rightarrow> string \<Rightarrow> string option" where
  "cleanImageUrl U raw pageUrl' =
     (if \<not> truthy raw then None
      else
        let u = trim (orEmpty raw) in
        if u = [] then None
        else if isDataUrl u \<or> isSvg u then None
        else
          let u' = absolutize U (fixDoubledAbsolute u) pageUrl' in
          if u' = [] \<or> \<not> isHttpScheme u' then None else Some u')"

fun firstCleanImage :: "'u URLClass \<Rightarrow> string list \<Rightarrow> string \<Rightarrow> string option" where
  \<comment> \<open>the loop of \<open>promoteFromTags\<close>\<close>
  "firstCleanImage U [] pageUrl' = None"
| "firstCleanImage U (t # ts) pageUrl' =
     (case cleanImageUrl U (Some t) pageUrl' of
        Some cleaned \<Rightarrow> Some cleaned
      | None \<Rightarrow> firstCleanImage U ts pageUrl')"

definition promoteFromTags :: "'u URLClass \<Rightarrow> string list option \<Rightarrow> string \<Rightarrow> string option" where
  "promoteFromTags U tags pageUrl' =
     (case tags of None \<Rightarrow> None | Some ts \<Rightarrow> firstCleanImage U ts pageUrl')"

definition hrefOrUrl :: "'a Row_scheme \<Rightarrow> string" where
  \<comment> \<open>\<open>(x.data && (x.data.href || x.data.url)) || ''\<close>\<close>
  "hrefOrUrl d = (if truthy (itemHref d) then orEmpty (itemHref d)
                  else if truthy (itemUrl d) then orEmpty (itemUrl d) else [])"

definition existingGlobal :: "'u URLClass \<Rightarrow> 'a Row_scheme ScrapingState \<Rightarrow> string list" where
  \<comment> \<open>the members of the set \<open>existingGlobal\<close>\<close>
  "existingGlobal U st =
     filter (\<lambda>k. k \<noteq> [])
       (map (\<lambda>x. canonicalForDedupe U (currentUrl st) (hrefOrUrl (data x))) (extractedItems st))"

definition cleanRow :: "'u URLClass \<Rightarrow> string \<Rightarrow> 'a Row_scheme \<Rightarrow> 'a Row_scheme" where
  \<comment> \<open>the first \<open>map\<close> of \<open>cleanAndDedupeResults\<close>\<close>
  "cleanRow U cur r =
     (let hrefAbs = (if truthy (itemHref r) then Some (toAbsoluteUrl U cur (orEmpty (itemHref r))) else None);
          title' = (if truthy (itemTitle r) then Some (trim (orEmpty (itemTitle r))) else None);
          image = (case cleanImageUrl U (itemImage r) cur of
                     Some i \<Rightarrow> Some i
                   | None \<Rightarrow> promoteFromTags U (itemTags r) cur)
      in r\<lparr>itemHref := hrefAbs, itemTitle := title', itemImage := image\<rparr>)"

definition hasContent :: "'a Row_scheme \<Rightarrow> bool" where
  \<comment> \<open>\<open>r.title || r.href || r.snippet\<close>\<close>
  "hasContent r = (truthy (itemTitle r) \<or> truthy (itemHref r) \<or> truthy (itemSnippet r))"

definition templateString :: "string option \<Rightarrow> string" where
  \<comment> \<open>\<open>`${s}`\<close>: null prints as the word null\<close>
  "templateString s = (case s of None \<Rightarrow> ''null'' | Some v \<Rightarrow> v)"

definition dedupKey :: "'u URLClass \<Rightarrow> string \<Rightarrow> 'a Row_scheme \<Rightarrow> string" where
  \<comment> \<open>\<open>(r.href ? canonicalForDedupe(r.href) : '') || `${r.title}|${r.snippet || ''}`\<close>\<close>
  "dedupKey U cur r =
     (let k = (if truthy (itemHref r) then canonicalForDedupe U cur (orEmpty (itemHref r)) else [])
      in if k \<noteq> [] then k
         else templateString (itemTitle r) @ ''|''
              @ (if truthy (itemSnippet r) then orEmpty (itemSnippet r) else []))"

fun dedupeFilter :: "'u URLClass \<Rightarrow> string \<Rightarrow> string list \<Rightarrow> string list \<Rightarrow> 'a Row_scheme list \<Rightarrow> 'a Row_scheme list" where
  \<comment> \<open>the second \<open>filter\<close>, with the members of \<open>existingGlobal\<close> and of \<open>localSeen\<close>\<close>
  "dedupeFilter U cur glob seen [] = []"
| "dedupeFilter U cur glob seen (r # rs) =
     (let key = dedupKey U cur r in
      if key = [] then dedupeFilter U cur glob seen rs
      else if truthy (itemHref r) \<and> canonicalForDedupe U cur (orEmpty (itemHref r)) \<in> set glob
        then dedupeFilter U cur glob seen rs
      else if key \<in> set seen then dedupeFilter U cur glob seen rs
      else r # dedupeFilter U cur glob (key # seen) rs)"

fun countImage :: "string \<Rightarrow> (string \<times> nat) list \<Rightarrow> (string \<times> nat) list" where
  \<comment> \<open>\<open>counts[image] = (counts[image] || 0) + 1\<close> on an object. \<open>Object.entries\<close> lists
     the keys that are no array indices in the order of their first assignment; the keys
     here are images that \<open>cleanImageUrl\<close> returned, which begin with \<open>http:\<close> or \<open>https:\<close>\<close>
  "countImage i [] = [(i, 1)]"
| "countImage i ((k, c) # counts) =
     (if i = k then (k, c + 1) # counts else (k, c) # countImage i counts)"

definition imageCounts :: "'a Row_scheme list \<Rightarrow> (string \<times> nat) list" where
  "imageCounts results =
     foldl (\<lambda>counts r. if truthy (itemImage r) then countImage (orEmpty (itemImage r)) counts
                         else counts) [] results"

definition removeCommonImages :: "'a Row_scheme list \<Rightarrow> 'a Row_scheme list" where
  \<comment> \<open>mutates the records in place; the model returns them\<close>
  "removeCommonImages results =
     (case List.find (\<lambda>kc. 5 \<le> snd kc) (imageCounts results) of
        None \<Rightarrow> results
      | Some common \<Rightarrow>
          map (\<lambda>r. if itemImage r = Some (fst common) then r\<lparr>itemImage := None\<rparr> else r) results)"

definition cleanAndDedupeResults ::
  "'u URLClass \<Rightarrow> 'a Row_scheme ScrapingState \<Rightarrow> 'a Row_scheme list \<Rightarrow> int \<Rightarrow> 'a Row_scheme list" where
  "cleanAndDedupeResults U st results maxNeeded =
     (let cur = currentUrl st;
          cleaned = slice0 maxNeeded
                      (dedupeFilter U cur (existingGlobal U st) []
                         (filter hasContent (map (cleanRow U cur) results)))
      in removeCommonImages cleaned)"

section \<open>ScrapingEngine: extraction from a snapshot\<close>

text \<open>
  What the page under the browser answers while one page is being looked at: the
  snapshot \<open>takeSnapshot\<close> builds, whether \<open>dumpSnapshot\<close> fails, and the records that
  the three in-page evaluations return (for the schema's item root, for a list root
  selector, for the page's anchors). \<open>Inl\<close> is the message of the error thrown.
\<close>

record 'r View =
  viewSnapshot :: "string + LLMSnapshot"
  viewDump :: "string option"
  schemaRows :: "string + 'r list"
  listRows :: "string \<Rightarrow> string + 'r list"
  anchorRows :: "string + 'r list"

definition maxNeededOf :: "Settings \<Rightarrow> 'r ScrapingState \<Rightarrow> int" where
  "maxNeededOf cfg st =
     max ((case maxItems cfg of None \<Rightarrow> MAX_SAFE_INTEGER | Some m \<Rightarrow> m)
            - int (length (extractedItems st))) 0"

definition extractFromSchema ::
  "'u URLClass \<Rightarrow> Settings \<Rightarrow> 'a Row_scheme View \<Rightarrow> 'a Row_scheme ScrapingState \<Rightarrow> int \<Rightarrow> 'a Row_scheme list" where
  \<comment> \<open>an error of the evaluation is caught here and gives no records\<close>
  "extractFromSchema U cfg view st maxNeeded =
     (if \<not> schemaSelectors cfg then []
      else (case schemaRows view of
              Inl e \<Rightarrow> []
            | Inr rows \<Rightarrow> cleanAndDedupeResults U st rows maxNeeded))"

definition extractFromSnapshot ::
  "'u URLClass \<Rightarrow> LLMSnapshot \<Rightarrow> 'a Row_scheme View \<Rightarrow> 'a Row_scheme ScrapingState \<Rightarrow> int
     \<Rightarrow> string + 'a Row_scheme list" where
  "extractFromSnapshot U snap view st maxNeeded =
     (case lists (compact snap) of
        [] \<Rightarrow> Inr []
      | lb # _ \<Rightarrow>
          let rootSel = selector (listRoot lb) in
          if rootSel = [] then Inr []
          else (case listRows view rootSel of
                  Inl e \<Rightarrow> Inl e
                | Inr pageResults \<Rightarrow> Inr (cleanAndDedupeResults U st pageResults maxNeeded)))"

definition extractFromPageAnchors ::
  "'u URLClass \<Rightarrow> 'a Row_scheme View \<Rightarrow> 'a Row_scheme ScrapingState \<Rightarrow> int \<Rightarrow> string + 'a Row_scheme list" where
  "extractFromPageAnchors U view st maxNeeded =
     (case anchorRows view of
        Inl e \<Rightarrow> Inl e
      | Inr anchors \<Rightarrow> Inr (cleanAndDedupeResults U st anchors maxNeeded))"

definition extractItemsFromSnapshot ::
  "'u URLClass \<Rightarrow> Settings \<Rightarrow> LLMSnapshot \<Rightarrow> 'a Row_scheme View \<Rightarrow> 'a Row_scheme ScrapingState
     \<Rightarrow> string + 'a Row_scheme list" where
  "extractItemsFromSnapshot U cfg snap view st =
     (let maxNeeded = maxNeededOf cfg st in
      if maxNeeded \<le> 0 then Inr []
      else
        let schemaResults = extractFromSchema U cfg view st maxNeeded in
        if schemaResults \<noteq> [] then Inr schemaResults
        else (case extractFromSnapshot U snap view st maxNeeded of
                Inl e \<Rightarrow> Inl e
              | Inr snapshotResults \<Rightarrow>
                  if snapshotResults \<noteq> [] then Inr snapshotResults
                  else extractFromPageAnchors U view st maxNeeded))"

section \<open>ScrapingEngine: the scraping loop\<close>

definition shouldContinue :: "Settings \<Rightarrow> 'r ScrapingState \<Rightarrow> bool" where
  "shouldContinue cfg st =
     (if truthyNum (maxPages cfg) \<and> currentPage st \<ge> (case maxPages cfg of None \<Rightarrow> 0 | Some n \<Rightarrow> n)
        then False
      else if truthyNum (maxItems cfg) \<and>
              int (length (extractedItems st)) \<ge> (case maxItems cfg of None \<Rightarrow> 0 | Some n \<Rightarrow> n)
        then False
      else True)"

definition handleError :: "string \<Rightarrow> 'r ScrapingState \<Rightarrow> 'r ScrapingState" where
  "handleError msg st =
     st\<lparr>errors := errors st @ [\<lparr>errorType = ''extraction'', message = msg, errorUrl = currentUrl st\<rparr>]\<rparr>"

definition initializeState :: "Settings \<Rightarrow> 'r ScrapingState" where
  "initializeState cfg =
     \<lparr>currentUrl = baseUrl cfg, visitedUrls = {}, extractedItems = [], currentPage = 1, errors = []\<rparr>"

definition buildStartUrl :: "Settings \<Rightarrow> string" where
  "buildStartUrl cfg = baseUrl cfg @ orEmpty (startPath cfg)"

record 'r ScrapingResult =
  resultUrl :: string
  resultData :: "'r list"
  metaPageCount :: int
  metaItemCount :: nat
  metaErrors :: "ScrapingError list"

definition buildResult :: "Settings \<Rightarrow> 'r ScrapingState \<Rightarrow> 'r ScrapingResult" where
  "buildResult cfg st =
     \<lparr>resultUrl = baseUrl cfg, resultData = map data (extractedItems st),
      metaPageCount = currentPage st, metaItemCount = length (extractedItems st),
      metaErrors = errors st\<rparr>"

definition pushItems :: "'r list \<Rightarrow> 'r ScrapingState \<Rightarrow> 'r ScrapingState" where
  \<comment> \<open>\<open>if (items.length) this.state.extractedItems.push(...items.map(d => ({ data: d, url:
     this.state.currentUrl, timestamp: now })))\<close>\<close>
  "pushItems items st =
     st\<lparr>extractedItems := extractedItems st @ map (\<lambda>d. \<lparr>data = d, foundAt = currentUrl st\<rparr>) items\<rparr>"

definition markVisited :: "string \<Rightarrow> 'r ScrapingState \<Rightarrow> 'r ScrapingState" where
  "markVisited u st = st\<lparr>visitedUrls := insert u (visitedUrls st)\<rparr>"

definition isVisited :: "'r ScrapingState \<Rightarrow> string \<Rightarrow> bool" where
  "isVisited st u = (u \<in> visitedUrls st)"

definition isSameSite :: "'u URLClass \<Rightarrow> 'r ScrapingState \<Rightarrow> string \<Rightarrow> bool" where
  \<comment> \<open>an error of either constructor is caught and gives true\<close>
  "isSameSite U st h =
     (case (newURL U (currentUrl st) None, newURL U h None) of
        (Some a, Some b) \<Rightarrow> hostOf U a = hostOf U b \<or> hostOf U b = []
      | _ \<Rightarrow> True)"

definition discoverLinksFromSnapshot :: "'u URLClass \<Rightarrow> LLMSnapshot \<Rightarrow> 'r ScrapingState \<Rightarrow> string list" where
  "discoverLinksFromSnapshot U snap st =
     filter (isSameSite U st)
       (dedupe (map (\<lambda>ctl. orEmpty (href ctl))
                  (filter (\<lambda>ctl. truthy (href ctl)) (slice0 10 (controls (compact snap))))))"

fun firstUnvisited :: "'r ScrapingState \<Rightarrow> NodeRef list \<Rightarrow> string option" where
  \<comment> \<open>the loop of \<open>chooseNextPageHref\<close>\<close>
  "firstUnvisited st [] = None"
| "firstUnvisited st (c # cs) =
     (if truthy (href c) \<and> \<not> isVisited st (orEmpty (href c)) then Some (orEmpty (href c))
      else firstUnvisited st cs)"

definition chooseNextPageHref :: "LLMSnapshot \<Rightarrow> 'r ScrapingState \<Rightarrow> string option" where
  "chooseNextPageHref snap st = firstUnvisited st (pagination (compact snap))"

text \<open>
  What the browser answers during one cycle of the loop: the view of the page the cycle
  starts on, the outcome of \<open>safeGoto\<close> for each address (an error message, or the view of
  the page reached), and the outcomes of \<open>navigation.hasNextPage\<close> and
  \<open>navigation.goToNextPage\<close>.
\<close>

record 'r CyclePage =
  rootView :: "'r View"
  safeGoto :: "string \<Rightarrow> string + 'r View"
  hasNextPage :: "string + bool"
  goToNextPage :: "string option"

text \<open>An error thrown inside a cycle, with the state at that moment.\<close>

type_synonym 'r thrown = "string \<times> 'r ScrapingState"

definition rootStep ::
  "'u URLClass \<Rightarrow> Settings \<Rightarrow> 'a Row_scheme View \<Rightarrow> 'a Row_scheme ScrapingState
     \<Rightarrow> 'a Row_scheme thrown + (LLMSnapshot \<times> 'a Row_scheme ScrapingState)" where
  \<comment> \<open>the start of a cycle: \<open>takeSnapshot\<close>, \<open>dumpSnapshot\<close>, the snapshot's URL becomes the
     current one, \<open>extractItemsFromSnapshot\<close> and the push\<close>
  "rootStep U cfg view st =
     (case viewSnapshot view of
        Inl e \<Rightarrow> Inl (e, st)
      | Inr snap \<Rightarrow>
          (case viewDump view of
             Some e \<Rightarrow> Inl (e, st)
           | None \<Rightarrow>
               let st1 = st\<lparr>currentUrl := url (compact snap)\<rparr> in
               (case extractItemsFromSnapshot U cfg snap view st1 of
                  Inl e \<Rightarrow> Inl (e, st1)
                | Inr items \<Rightarrow> Inr (snap, pushItems items st1))))"

definition childStep ::
  "'u URLClass \<Rightarrow> Settings \<Rightarrow> string \<Rightarrow> (string + 'a Row_scheme View) \<Rightarrow> 'a Row_scheme ScrapingState
     \<Rightarrow> 'a Row_scheme thrown + 'a Row_scheme ScrapingState" where
  \<comment> \<open>one followed link: \<open>safeGoto\<close>, \<open>markVisited\<close>, then snapshot, dump, extraction and push
     on the child page; an error of \<open>goBack\<close> is swallowed\<close>
  "childStep U cfg h reached st =
     (case reached of
        Inl e \<Rightarrow> Inl (e, st)
      | Inr view \<Rightarrow>
          let st1 = markVisited h st in
          (case viewSnapshot view of
             Inl e \<Rightarrow> Inl (e, st1)
           | Inr childSnap \<Rightarrow>
               (case viewDump view of
                  Some e \<Rightarrow> Inl (e, st1)
                | None \<Rightarrow>
                    (case extractItemsFromSnapshot U cfg childSnap view st1 of
                       Inl e \<Rightarrow> Inl (e, st1)
                     | Inr childItems \<Rightarrow> Inr (pushItems childItems st1)))))"

fun followDiscovered ::
  "'u URLClass \<Rightarrow> Settings \<Rightarrow> (string \<Rightarrow> string + 'a Row_scheme View) \<Rightarrow> string list \<Rightarrow> 'a Row_scheme ScrapingState
     \<Rightarrow> 'a Row_scheme thrown + 'a Row_scheme ScrapingState" where
  \<comment> \<open>the loop \<open>for (const href of links)\<close>\<close>
  "followDiscovered U cfg goto [] st = Inr st"
| "followDiscovered U cfg goto (h # links) st =
     (if \<not> shouldContinue cfg st then Inr st
      else if isVisited st h then followDiscovered U cfg goto links st
      else (case childStep U cfg h (goto h) st of
              Inl t \<Rightarrow> Inl t
            | Inr st1 \<Rightarrow> followDiscovered U cfg goto links st1))"

definition paginate ::
  "Settings \<Rightarrow> 'r CyclePage \<Rightarrow> LLMSnapshot \<Rightarrow> 'r ScrapingState
     \<Rightarrow> 'r thrown + ('r ScrapingState \<times> bool)" where
  \<comment> \<open>step 3 of the cycle; the flag is \<open>advanced\<close>\<close>
  "paginate cfg page snap st =
     (case chooseNextPageHref snap st of
        Some nextHref \<Rightarrow>
          (case safeGoto page nextHref of
             Inl e \<Rightarrow> Inl (e, st)
           | Inr reached \<Rightarrow> Inr (markVisited nextHref (st\<lparr>currentPage := currentPage st + 1\<rparr>), True))
      | None \<Rightarrow>
          if schemaPagination cfg then
            (case hasNextPage page of
               Inl e \<Rightarrow> Inl (e, st)
             | Inr hasNext \<Rightarrow>
                 if hasNext then
                   (case goToNextPage page of
                      Some e \<Rightarrow> Inl (e, st)
                    | None \<Rightarrow> Inr (st\<lparr>currentPage := currentPage st + 1\<rparr>, True))
                 else Inr (st, False))
          else Inr (st, False))"

definition cycle ::
  "'u URLClass \<Rightarrow> Settings \<Rightarrow> 'a Row_scheme CyclePage \<Rightarrow> 'a Row_scheme ScrapingState
     \<Rightarrow> 'a Row_scheme thrown + ('a Row_scheme ScrapingState \<times> bool)" where
  \<comment> \<open>the body of the \<open>try\<close> block of the loop\<close>
  "cycle U cfg page st =
     (case rootStep U cfg (rootView page) st of
        Inl t \<Rightarrow> Inl t
      | Inr (snap, st1) \<Rightarrow>
          (case (if followLinks cfg
                 then followDiscovered U cfg (safeGoto page) (discoverLinksFromSnapshot U snap st1) st1
                 else Inr st1) of
             Inl t \<Rightarrow> Inl t
           | Inr st2 \<Rightarrow> paginate cfg page snap st2))"

text \<open>
  The loop is run against the answers of the browser for its successive cycles, one
  \<open>CyclePage\<close> per cycle begun. The model returns what the loop did (the state in
  which each cycle began, and each delay it waited) and the result the loop returned.
  There is no result when the answers are used up before the loop has ended; the
  events are then those of the loop so far.
\<close>

datatype 'r Event = CycleBegins "'r ScrapingState" | Waits int

definition attemptsOf :: "Settings \<Rightarrow> int" where
  \<comment> \<open>\<open>this.config?.retry?.attempts ?? 3\<close>\<close>
  "attemptsOf cfg = (case retryAttempts cfg of None \<Rightarrow> 3 | Some a \<Rightarrow> a)"

definition delayOf :: "Settings \<Rightarrow> int" where
  \<comment> \<open>\<open>this.config?.retry?.delay ?? 1000\<close>\<close>
  "delayOf cfg = (case retryDelay cfg of None \<Rightarrow> 1000 | Some d \<Rightarrow> d)"

definition after :: "'e list \<Rightarrow> 'e list \<times> 'x \<Rightarrow> 'e list \<times> 'x" where
  \<comment> \<open>the events that happened first, then those of the rest of the run\<close>
  "after evs rest = (evs @ fst rest, snd rest)"

fun scrapingLoop ::
  "'u URLClass \<Rightarrow> Settings \<Rightarrow> 'a Row_scheme CyclePage list \<Rightarrow> 'a Row_scheme ScrapingState
     \<Rightarrow> 'a Row_scheme Event list \<times> 'a Row_scheme ScrapingResult option" where
  "scrapingLoop U cfg [] st =
     ([], if shouldContinue cfg st then None else Some (buildResult cfg st))"
| "scrapingLoop U cfg (page # pages) st =
     (if \<not> shouldContinue cfg st then ([], Some (buildResult cfg st))
      else
        (case cycle U cfg page st of
           Inr (st1, advanced) \<Rightarrow>
             if \<not> advanced then ([CycleBegins st], Some (buildResult cfg st1))
             else after [CycleBegins st] (scrapingLoop U cfg pages st1)
         | Inl (e, st1) \<Rightarrow>
             let st2 = handleError e st1 in
             if int (length (errors st2)) \<ge> attemptsOf cfg
             then ([CycleBegins st], Some (buildResult cfg st2))
             else after [CycleBegins st, Waits (delayOf cfg)] (scrapingLoop U cfg pages st2)))"

definition run ::
  "'u URLClass \<Rightarrow> Settings \<Rightarrow> 'a Row_scheme CyclePage list
     \<Rightarrow> 'a Row_scheme Event list \<times> 'a Row_scheme ScrapingResult option" where
  \<comment> \<open>\<open>run\<close> from the moment the start URL is loaded: the state of the constructor, the
     start URL as current URL, then the loop\<close>
  "run U cfg pages = scrapingLoop U cfg pages ((initializeState cfg)\<lparr>currentUrl := buildStartUrl cfg\<rparr>)"

definition keeps :: "int option \<Rightarrow> 'r ScrapingState \<Rightarrow> 'r ScrapingState \<Rightarrow> bool" where
  \<comment> \<open>what no step inside a cycle changes: the errors, and that the records extracted are
     within \<open>maxItems\<close>\<close>
  "keeps limit st st' =
     (errors st' = errors st \<and>
      (\<forall>m. limit = Some m \<and> 0 \<le> m \<and> int (length (extractedItems st)) \<le> m
            \<longrightarrow> int (length (extractedItems st')) \<le> m))"

definition isCycleBegins :: "'r Event \<Rightarrow> bool" where
  "isCycleBegins ev = (case ev of CycleBegins s \<Rightarrow> True | Waits d \<Rightarrow> False)"

definition cyclesBegun :: "'r Event list \<Rightarrow> nat" where
  "cyclesBegun tr = length (filter isCycleBegins tr)"

definition eventOk :: "Settings \<Rightarrow> 'r Event \<Rightarrow> bool" where
  \<comment> \<open>a cycle begins with no error recorded or with fewer than the ceiling; a delay is
     the configured one\<close>
  "eventOk cfg ev =
     (case ev of
        CycleBegins s \<Rightarrow> errors s = [] \<or> int (length (errors s)) < attemptsOf cfg
      | Waits d \<Rightarrow> d = delayOf cfg)"

definition errorsAtBegin :: "'r Event \<Rightarrow> nat option" where
  \<comment> \<open>how many errors are recorded where a cycle begins\<close>
  "errorsAtBegin ev = (case ev of CycleBegins s \<Rightarrow> Some (length (errors s)) | Waits d \<Rightarrow> None)"

section \<open>Sample pages\<close>

definition viewport :: Rect where
  "viewport = \<lparr>rx = 0, ry = 0, width = 1280, height = 720\<rparr>"

definition plainDoc :: Element where
  "plainDoc = Element ''HTML'' [] [] viewport ''html'' ''html'' []
     [Element ''BODY'' [] [] viewport ''html > body'' ''html > body'' [] []]"

definition crowdedFrame :: Frame where
  \<comment> \<open>200 headings and 500 controls\<close>
  "crowdedFrame =
     \<lparr>getHeadings = map (\<lambda>n. ''Heading '' @ toStringRadix 10 n) [0..<200],
      getClickables = (\<lambda>limit. map (\<lambda>n. bareRef (''#c'' @ toStringRadix 10 n)) [0..<500]),
      document = plainDoc,
      innerHeight = 720,
      getForms = (\<lambda>maxForms' maxFields. [])\<rparr>"

definition crowdedPage :: Page where
  "crowdedPage =
     \<lparr>pageUrl = ''https://example.com/'', pageTitle = Some ''Example'',
      mainFrame = crowdedFrame, childFrames = replicate 5 (crowdedFrame, True),
      densityHints = (0, 0)\<rparr>"

definition defaultOptions :: ExtractorOptions where
  "defaultOptions = \<lparr>limits = None, includeSameOriginIframes = None\<rparr>"

definition collidingFrame :: Frame where
  "collidingFrame =
     \<lparr>getHeadings = [],
      getClickables = (\<lambda>limit. [bareRef ''#Aa'', bareRef ''#BB'']),
      document = plainDoc,
      innerHeight = 720,
      getForms = (\<lambda>maxForms' maxFields. [])\<rparr>"

definition collidingPage :: Page where
  "collidingPage =
     \<lparr>pageUrl = ''https://example.com/'', pageTitle = Some ''Example'',
      mainFrame = collidingFrame, childFrames = [], densityHints = (0, 0)\<rparr>"

definition textAnchor :: Element where
  "textAnchor = Element ''A'' [(''href'', ''/archive'')] ''Next''
     \<lparr>rx = 20, ry = 100, width = 80, height = 20\<rparr> ''#txt'' ''#txt'' ''https://example.com/archive'' []"

definition relAnchor :: Element where
  "relAnchor = Element ''A'' [(''rel'', ''next''), (''href'', ''/p/2'')] ''2''
     \<lparr>rx = 120, ry = 100, width = 20, height = 20\<rparr> ''#rel'' ''#rel'' ''https://example.com/p/2'' []"

definition moreAnchor :: Element where
  "moreAnchor = Element ''A'' [(''href'', ''/stories'')] ''More stories''
     \<lparr>rx = 20, ry = 60, width = 120, height = 20\<rparr> ''#more'' ''#more'' ''https://example.com/stories'' []"

definition bodyOf :: "Element list \<Rightarrow> Element" where
  "bodyOf kids = Element ''HTML'' [] [] viewport ''html'' ''html'' []
     [Element ''BODY'' [] [] viewport ''html > body'' ''html > body'' [] kids]"

definition frameOf :: "Element \<Rightarrow> Frame" where
  "frameOf doc = \<lparr>getHeadings = [], getClickables = (\<lambda>limit. []), document = doc,
     innerHeight = 720, getForms = (\<lambda>maxForms' maxFields. [])\<rparr>"

definition nextPage :: Page where
  "nextPage = \<lparr>pageUrl = ''https://example.com/'', pageTitle = Some ''Example'',
     mainFrame = frameOf (bodyOf [textAnchor, relAnchor]), childFrames = [], densityHints = (0, 0)\<rparr>"

definition framedPage :: Page where
  "framedPage = \<lparr>pageUrl = ''https://example.com/'', pageTitle = Some ''Example'',
     mainFrame = frameOf (bodyOf [textAnchor, moreAnchor]),
     childFrames = [(frameOf (bodyOf [relAnchor]), True)], densityHints = (0, 0)\<rparr>"

definition splitPage :: Page where
  \<comment> \<open>the anchor with the text in the main frame, the \<open>rel=next\<close> anchor in a child frame\<close>
  "splitPage = \<lparr>pageUrl = ''https://example.com/'', pageTitle = Some ''Example'',
     mainFrame = frameOf (bodyOf [textAnchor]),
     childFrames = [(frameOf (bodyOf [relAnchor]), True)], densityHints = (0, 0)\<rparr>"

definition spanCell :: Element where
  "spanCell = Element ''SPAN'' [] ''x'' \<lparr>rx = 0, ry = 0, width = 50, height = 20\<rparr> ''span'' ''span'' [] []"

definition storyCard :: "nat \<Rightarrow> nat \<Rightarrow> Element" where
  \<comment> \<open>the \<open>i\<close>-th card of a listing: a \<open>div\<close> of 300 by 120 pixels with \<open>m\<close> spans\<close>
  "storyCard m i =
     Element ''DIV'' [(''class'', ''card'')] ''Story''
       \<lparr>rx = 0, ry = 120 * real i, width = 300, height = 120\<rparr>
       (''html > body > div.card:nth-of-type('' @ toStringRadix 10 i @ '')'')
       (''html > body > div:nth-of-type('' @ toStringRadix 10 i @ '')'') []
       (replicate m spanCell)"

definition tenCards :: "Element list" where
  "tenCards = map (storyCard 6) [1, 2, 3, 4, 5, 6, 7, 8, 9, 10]"

definition fiveCards :: "Element list" where
  "fiveCards = map (storyCard 6) [1, 2, 3, 4, 5]"

definition mixedCards :: "Element list" where
  "mixedCards = map (storyCard 6) [1, 2, 3, 4, 5] @ map (storyCard 7) [6, 7, 8, 9, 10]"

definition newsUrl :: URL where
  "newsUrl = \<lparr>scheme = ''https'', host = ''example.com'', pathname = ''/News'',
              query = Some ''utm_source=feed&id=7'', fragment = Some ''top''\<rparr>"

text \<open>A site of listing pages, as the engine sees it through the browser.\<close>

definition settings :: Settings where
  "settings = \<lparr>baseUrl = ''https://example.com'', startPath = Some ''/list'',
               maxPages = None, maxItems = None, followLinks = False,
               schemaSelectors = False, schemaPagination = False,
               retryAttempts = None, retryDelay = None\<rparr>"

definition row :: "string option \<Rightarrow> string option \<Rightarrow> string option \<Rightarrow> string option \<Rightarrow> Row" where
  "row t h s i = \<lparr>itemTitle = t, itemHref = h, itemSnippet = s, itemImage = i,
                 itemTags = None, itemUrl = None\<rparr>"

definition refAt :: "string \<Rightarrow> string \<Rightarrow> string option \<Rightarrow> NodeRef" where
  "refAt rid sel h = \<lparr>selector = sel, role = None, name = None, href = h, visible = Some True,
                      bbox = None, refId = rid, frameId = ''main''\<rparr>"

definition listAt :: "string \<Rightarrow> NodeRef ListBlock" where
  "listAt sel = \<lparr>listRoot = refAt ''rmain-list'' sel None, itemCount = 10,
                 itemLinkSelector = Some ''a'', samples = []\<rparr>"

definition snapshotAt :: "string \<Rightarrow> NodeRef ListBlock list \<Rightarrow> NodeRef list \<Rightarrow> LLMSnapshot" where
  "snapshotAt u ls pag =
     \<lparr>compact = \<lparr>url = u, title = ''Listing'', headings = [], lists = ls, controls = [],
                 pagination = pag, forms = [], hints = (0, 0)\<rparr>,
      refMap = map_of (map (\<lambda>r. (refId r, \<lparr>entrySelector = selector r, entryFrameId = frameId r\<rparr>))
                         (map listRoot ls @ pag)),
      frameCount = 1\<rparr>"

definition viewOf :: "LLMSnapshot \<Rightarrow> Row list \<Rightarrow> Row View" where
  \<comment> \<open>a page whose list root holds the given records and that has no other anchors\<close>
  "viewOf snap rows = \<lparr>viewSnapshot = Inr snap, viewDump = None, schemaRows = Inr [],
                       listRows = (\<lambda>sel. Inr rows), anchorRows = Inr []\<rparr>"

definition closedView :: "Row View" where
  \<comment> \<open>a page on which \<open>takeSnapshot\<close> throws\<close>
  "closedView = \<lparr>viewSnapshot = Inl ''Target closed'', viewDump = None, schemaRows = Inr [],
                 listRows = (\<lambda>sel. Inr []), anchorRows = Inr []\<rparr>"

definition reachable :: "Row View \<Rightarrow> Row CyclePage" where
  \<comment> \<open>every navigation from the page succeeds\<close>
  "reachable v = \<lparr>rootView = v, safeGoto = (\<lambda>h. Inr v), hasNextPage = Inr False,
                  goToNextPage = None\<rparr>"

definition unreachable :: "Row View \<Rightarrow> Row CyclePage" where
  \<comment> \<open>every navigation from the page fails\<close>
  "unreachable v = \<lparr>rootView = v, safeGoto = (\<lambda>h. Inl ''net::ERR_CONNECTION_RESET''),
                    hasNextPage = Inr False, goToNextPage = None\<rparr>"

definition nextLink :: NodeRef where
  "nextLink = refAt ''rmain-next'' ''a.next'' (Some ''https://example.com/list?page=2'')"

definition emptyFirst :: LLMSnapshot where
  \<comment> \<open>a first page with a link to the second and no list\<close>
  "emptyFirst = snapshotAt ''https://example.com/list'' [] [nextLink]"

definition emptyLast :: LLMSnapshot where
  \<comment> \<open>a page with neither list nor pagination\<close>
  "emptyLast = snapshotAt ''https://example.com/list'' [] []"

definition startState :: "Row ScrapingState" where
  "startState = \<lparr>currentUrl = ''https://example.com/list'', visitedUrls = {},
                 extractedItems = [], currentPage = 1, errors = []\<rparr>"

definition failure :: "string \<Rightarrow> ScrapingError" where
  "failure msg = \<lparr>errorType = ''extraction'', message = msg, errorUrl = ''https://example.com/list''\<rparr>"

text \<open>A listing of ten items, each with a title and a link of its own.\<close>

definition itemAddress :: "char \<Rightarrow> URL" where
  "itemAddress d = \<lparr>scheme = ''https'', host = ''example.com'', pathname = ''/item/'' @ [d],
                    query = None, fragment = None\<rparr>"

definition itemRow :: "char \<Rightarrow> Row" where
  "itemRow d = row (Some (''Item '' @ [d])) (Some (URL_toString (itemAddress d))) None None"

definition tenRows :: "Row list" where
  "tenRows = map itemRow ''0123456789''"

definition tenListed :: LLMSnapshot where
  "tenListed = snapshotAt ''https://example.com/list'' [listAt ''#results''] []"

text \<open>Records without a link, and records that carry one of two shared images.\<close>

definition story :: Row where
  "story = row (Some ''Breaking story'') None (Some ''Details inside'') None"

definition storyFirst :: LLMSnapshot where
  "storyFirst = snapshotAt ''https://example.com/list'' [listAt ''#results''] [nextLink]"

definition storySecond :: LLMSnapshot where
  "storySecond = snapshotAt ''https://example.com/list?page=2'' [listAt ''#results''] []"

definition oneExtracted :: "Row ScrapingState" where
  \<comment> \<open>the state after item 0 was extracted from the listing\<close>
  "oneExtracted = startState\<lparr>extractedItems :=
                     [\<lparr>data = itemRow CHR ''0'', foundAt = ''https://example.com/list''\<rparr>]\<rparr>"

definition logoA :: string where
  "logoA = ''https://x.com/a.png''"

definition logoB :: string where
  "logoB = ''https://x.com/b.png''"

definition pictured :: "string \<Rightarrow> char \<Rightarrow> Row" where
  "pictured img d = row (Some (''Item '' @ [d])) None None (Some img)"

definition twoLogos :: "Row list" where
  "twoLogos = map (pictured logoA) ''01234'' @ map (pictured logoB) ''56789''"

section \<open>Properties of the snapshot\<close>

lemma toStringRadix_small: "n < radix \<Longrightarrow> toStringRadix radix n = [digit36 n]"
  by (simp add: toStringRadix.simps)

lemma toStringRadix_big:
  "radix \<le> n \<Longrightarrow> 2 \<le> radix \<Longrightarrow>
   toStringRadix radix n = toStringRadix radix (n div radix) @ [digit36 (n mod radix)]"
  by (subst toStringRadix.simps) simp

lemma length_slice0: "0 \<le> n \<Longrightarrow> int (length (slice0 n xs)) \<le> n"
  by (simp add: slice0_def)

lemma length_slice0_nat: "length (slice0 (int k) xs) \<le> k"
  by (simp add: slice0_def)

text \<open>
  C6. Whatever the frames of the page contain, the compact snapshot that \<open>build\<close>
  assembles has at most 6 headings and at most 2 pagination candidates, and at most
  \<open>maxLists\<close> lists, \<open>maxControls\<close> controls and \<open>maxForms\<close> forms, for the limits in
  force (the defaults 2, 30 and 3 overridden by the options), which are counts: not
  negative.
\<close>

theorem build_size_caps:
  assumes "lims = mergeLimits DEFAULT_LIMITS (limits opts)"
    and "0 \<le> maxLists lims" and "0 \<le> maxControls lims" and "0 \<le> maxForms lims"
  shows "length (headings (compact (build opts page))) \<le> 6
       \<and> int (length (lists (compact (build opts page)))) \<le> maxLists lims
       \<and> int (length (controls (compact (build opts page)))) \<le> maxControls lims
       \<and> length (pagination (compact (build opts page))) \<le> 2
       \<and> int (length (forms (compact (build opts page)))) \<le> maxForms lims"
proof -
  have h: "length (slice0 6 xs) \<le> 6" for xs :: "string list"
    using length_slice0_nat [of 6 xs] by simp
  have p: "length (slice0 2 xs) \<le> 2" for xs :: "NodeRef list"
    using length_slice0_nat [of 2 xs] by simp
  show ?thesis
    using assms h p by (simp add: build_def Let_def length_slice0)
qed

theorem build_size_caps_witness:
  "length (headings (compact (build defaultOptions crowdedPage))) \<le> 6
   \<and> int (length (lists (compact (build defaultOptions crowdedPage)))) \<le> 2
   \<and> int (length (controls (compact (build defaultOptions crowdedPage)))) \<le> 30
   \<and> length (pagination (compact (build defaultOptions crowdedPage))) \<le> 2
   \<and> int (length (forms (compact (build defaultOptions crowdedPage)))) \<le> 3"
  using build_size_caps [of DEFAULT_LIMITS defaultOptions crowdedPage]
  by (simp add: mergeLimits_def DEFAULT_LIMITS_def defaultOptions_def)

lemma addRef_eq: "addRef fid r m = (nodeRefOf fid r, writeRef m (nodeRefOf fid r))"
  by (simp add: addRef_def writeRef_def nodeRefOf_def Let_def)

lemma mapWith_writes:
  assumes "\<And>x m. f x m = (g x, foldl writeRef m (h x))"
  shows "mapWith f xs m = (map g xs, foldl writeRef m (concat (map h xs)))"
  by (induction xs arbitrary: m) (simp_all add: assms)

lemma mapWith_addRef:
  "mapWith (addRef fid) rs m = (map (nodeRefOf fid) rs, foldl writeRef m (map (nodeRefOf fid) rs))"
  using mapWith_writes [of "addRef fid" "nodeRefOf fid" "\<lambda>r. [nodeRefOf fid r]" rs m]
  by (simp add: addRef_eq)

lemma mapWith_addListRef:
  "mapWith (addListRef fid) lbs m =
     (map (listOf fid) lbs, foldl writeRef m (map (nodeRefOf fid) (map listRoot lbs)))"
  using mapWith_writes [of "addListRef fid" "listOf fid" "\<lambda>lb. [nodeRefOf fid (listRoot lb)]" lbs m]
  by (simp add: addListRef_def addRef_eq listOf_def comp_def)

lemma mapWith_addFieldRef:
  "mapWith (addFieldRef fid) ffs m =
     (map (fieldOf fid) ffs, foldl writeRef m (map (nodeRefOf fid) (map inputRef ffs)))"
  using mapWith_writes [of "addFieldRef fid" "fieldOf fid" "\<lambda>ff. [nodeRefOf fid (inputRef ff)]" ffs m]
  by (simp add: addFieldRef_def addRef_eq fieldOf_def comp_def)

lemma addFormRefs_eq:
  "addFormRefs fid fb m = (formOf fid fb, foldl writeRef m (map (nodeRefOf fid) (formRefs fb)))"
  by (cases "submitRef fb")
     (simp_all add: addFormRefs_def addRef_eq mapWith_addFieldRef formOf_def formRefs_def)

lemma mapWith_addFormRefs:
  "mapWith (addFormRefs fid) fbs m =
     (map (formOf fid) fbs,
      foldl writeRef m (map (nodeRefOf fid) (concat (map formRefs fbs))))"
  using mapWith_writes [of "addFormRefs fid" "formOf fid" "\<lambda>fb. map (nodeRefOf fid) (formRefs fb)" fbs m]
  by (simp add: addFormRefs_eq map_concat comp_def)

lemma formRefs_formOf: "formRefs (formOf fid fb) = map (nodeRefOf fid) (formRefs fb)"
  by (cases "submitRef fb") (simp_all add: formRefs_def formOf_def fieldOf_def comp_def)

lemma frameStep_refMap:
  "accRefMap (frameStep lims acc ff) =
     foldl writeRef (accRefMap acc) (map (nodeRefOf (snd ff)) (frameRawRefs lims (fst ff)))"
  by (simp add: frameStep_def Let_def mapWith_addRef mapWith_addListRef mapWith_addFormRefs
        frameRawRefs_def)

lemma frameStep_refs:
  "set (accRefs (frameStep lims acc ff)) =
     set (accRefs acc) \<union> set (map (nodeRefOf (snd ff)) (frameRawRefs lims (fst ff)))"
  by (auto simp add: frameStep_def Let_def mapWith_addRef mapWith_addListRef mapWith_addFormRefs
        frameRawRefs_def accRefs_def listOf_def formRefs_formOf)

lemma foldl_frameStep_refMap:
  "accRefMap (foldl (frameStep lims) acc fs) =
     foldl writeRef (accRefMap acc)
       (concat (map (\<lambda>ff. map (nodeRefOf (snd ff)) (frameRawRefs lims (fst ff))) fs))"
  by (induction fs arbitrary: acc) (simp_all add: frameStep_refMap)

lemma foldl_frameStep_refs:
  "set (accRefs (foldl (frameStep lims) acc fs)) =
     set (accRefs acc) \<union>
     set (concat (map (\<lambda>ff. map (nodeRefOf (snd ff)) (frameRawRefs lims (fst ff))) fs))"
  by (induction fs arbitrary: acc) (simp_all add: frameStep_refs Un_assoc)

lemma set_slice0: "set (slice0 n xs) \<subseteq> set xs"
  by (simp add: slice0_def set_take_subset)

lemma set_rankFrom: "set (rankFrom seen cs) \<subseteq> set cs"
  by (induction cs arbitrary: seen) auto

lemma build_refMap:
  "refMap (build opts page) = foldl writeRef Map.empty (registered opts page)"
  by (simp add: build_def Let_def registered_def foldl_frameStep_refMap emptyAcc_def)

lemma build_compactRefs:
  "set (compactRefs (compact (build opts page))) \<subseteq> set (registered opts page)"
proof -
  let ?acc = "foldl (frameStep (mergeLimits DEFAULT_LIMITS (limits opts))) emptyAcc (pageFrames opts page)"
  have "set (compactRefs (compact (build opts page))) \<subseteq> set (accRefs ?acc)"
    using set_slice0 [of "maxControls (mergeLimits DEFAULT_LIMITS (limits opts))" "accControls ?acc"]
      set_slice0 [of "maxLists (mergeLimits DEFAULT_LIMITS (limits opts))" "accLists ?acc"]
      set_slice0 [of "maxForms (mergeLimits DEFAULT_LIMITS (limits opts))" "accForms ?acc"]
      set_slice0 [of 2 "rankPagination (accPagination ?acc)"]
      set_rankFrom [of "[]" "accPagination ?acc"]
    by (auto simp add: build_def Let_def compactRefs_def accRefs_def rankPagination_def)
  also have "\<dots> = set (registered opts page)"
    unfolding foldl_frameStep_refs registered_def by (simp add: accRefs_def emptyAcc_def)
  finally show ?thesis .
qed

lemma foldl_writeRef_lookup:
  "nr \<in> set rs \<Longrightarrow>
   \<exists>nr' \<in> set rs. refId nr' = refId nr \<and>
     foldl writeRef m rs (refId nr) = Some \<lparr>entrySelector = selector nr', entryFrameId = frameId nr'\<rparr>"
proof (induction rs arbitrary: nr rule: rev_induct)
  case Nil
  then show ?case by simp
next
  case (snoc x rs)
  show ?case
  proof (cases "refId x = refId nr")
    case True
    then show ?thesis by (auto simp add: writeRef_def)
  next
    case False
    with snoc.prems have "nr \<in> set rs" by auto
    from snoc.IH [OF this] False show ?thesis by (auto simp add: writeRef_def)
  qed
qed

lemma registered_refId:
  "nr \<in> set (registered opts page) \<Longrightarrow>
   refId nr = makeRefId (frameId nr) (selector nr) (href nr) (name nr)"
  by (auto simp add: registered_def nodeRefOf_def)

lemma digit36_no_dash: "digit36 d \<noteq> CHR ''-''"
proof -
  have "digit36 d \<in> set ''0123456789abcdefghijklmnopqrstuvwxyz''"
    unfolding digit36_def by (rule nth_mem) simp
  then show ?thesis by auto
qed

lemma toStringRadix_no_dash: "CHR ''-'' \<notin> set (toStringRadix radix n)"
proof (induction radix n rule: toStringRadix.induct)
  case (1 radix n)
  show ?case
  proof (cases "n < radix \<or> radix < 2")
    case True
    then show ?thesis using digit36_no_dash [of n] by (subst toStringRadix.simps) auto
  next
    case False
    with 1 show ?thesis using digit36_no_dash [of "n mod radix"]
      by (subst toStringRadix.simps) auto
  qed
qed

lemma split_at_first:
  "a \<notin> set xs \<Longrightarrow> a \<notin> set xs' \<Longrightarrow> xs @ a # ys = xs' @ a # ys' \<Longrightarrow> xs = xs' \<and> ys = ys'"
proof (induction xs arbitrary: xs')
  case Nil
  then show ?case by (cases xs') auto
next
  case (Cons x xs)
  then show ?case by (cases xs') auto
qed

lemma split_last_dash:
  assumes "f @ CHR ''-'' # d = f' @ CHR ''-'' # d'"
    and "CHR ''-'' \<notin> set d" and "CHR ''-'' \<notin> set d'"
  shows "f = f'"
proof -
  have "rev d @ CHR ''-'' # rev f = rev d' @ CHR ''-'' # rev f'"
    using arg_cong [OF assms(1), of rev] by simp
  with assms(2,3) have "rev d = rev d' \<and> rev f = rev f'"
    using split_at_first [of "CHR ''-''" "rev d" "rev d'" "rev f" "rev f'"] by simp
  then show ?thesis by simp
qed

lemma makeRefId_frame:
  "makeRefId fid sel h n = makeRefId fid' sel' h' n' \<Longrightarrow> fid = fid'"
  using split_last_dash [OF _ toStringRadix_no_dash toStringRadix_no_dash]
  by (simp add: makeRefId_def Let_def)

text \<open>
  C10, as the code has it. Every NodeRef of the compact summary (controls, list roots,
  pagination candidates, forms, field inputs, submit controls) carries the reference id
  \<open>makeRefId\<close> computes from its own frame id, selector, href and name, so equal
  tuples get equal ids; that id is a key of \<open>refMap\<close>, and its entry has the
  NodeRef's frame id and the selector of a reference registered under the same id:
  the NodeRef's own selector whenever no registered reference with another selector
  shares the id. The id is a 32-bit hash printed in base 36, two selectors can share
  it, and the later registration then overwrites the earlier one.
\<close>

theorem refMap_resolves:
  "\<forall>nr \<in> set (compactRefs (compact (build opts page))).
     refId nr = makeRefId (frameId nr) (selector nr) (href nr) (name nr) \<and>
     (\<exists>e. refMap (build opts page) (refId nr) = Some e \<and>
          entryFrameId e = frameId nr \<and>
          (\<exists>nr' \<in> set (registered opts page). refId nr' = refId nr \<and> entrySelector e = selector nr') \<and>
          ((\<forall>nr' \<in> set (registered opts page). refId nr' = refId nr \<longrightarrow> selector nr' = selector nr)
             \<longrightarrow> entrySelector e = selector nr))"
proof
  fix nr
  assume "nr \<in> set (compactRefs (compact (build opts page)))"
  then have reg: "nr \<in> set (registered opts page)"
    using build_compactRefs by blast
  have id: "refId nr = makeRefId (frameId nr) (selector nr) (href nr) (name nr)"
    using reg by (rule registered_refId)
  from foldl_writeRef_lookup [OF reg, of Map.empty]
  obtain nr' where nr': "nr' \<in> set (registered opts page)" "refId nr' = refId nr"
    and look: "refMap (build opts page) (refId nr)
                 = Some \<lparr>entrySelector = selector nr', entryFrameId = frameId nr'\<rparr>"
    by (auto simp add: build_refMap)
  have "frameId nr' = frameId nr"
    using makeRefId_frame [of "frameId nr'" "selector nr'" "href nr'" "name nr'"
        "frameId nr" "selector nr" "href nr" "name nr"]
      registered_refId [OF nr'(1)] id nr'(2) by simp
  with nr' look id show "refId nr = makeRefId (frameId nr) (selector nr) (href nr) (name nr) \<and>
     (\<exists>e. refMap (build opts page) (refId nr) = Some e \<and>
          entryFrameId e = frameId nr \<and>
          (\<exists>nr' \<in> set (registered opts page). refId nr' = refId nr \<and> entrySelector e = selector nr') \<and>
          ((\<forall>nr' \<in> set (registered opts page). refId nr' = refId nr \<longrightarrow> selector nr' = selector nr)
             \<longrightarrow> entrySelector e = selector nr))"
    by auto
qed

text \<open>
  Two controls of one frame whose selectors are \<open>#Aa\<close> and \<open>#BB\<close> get the same
  reference id, and the map resolves the id of the first to the selector of the second.
\<close>

lemma refId_Aa: "makeRefId ''main'' ''#Aa'' None None = ''rmain-pu8yg0''"
  by (simp add: makeRefId_def orEmpty_def hashString_def toStringRadix_small toStringRadix_big digit36_def)

lemma refId_BB: "makeRefId ''main'' ''#BB'' None None = ''rmain-pu8yg0''"
  by (simp add: makeRefId_def orEmpty_def hashString_def toStringRadix_small toStringRadix_big digit36_def)

lemma plainDoc_lists: "getListBlocks plainDoc n = []"
  by (simp add: getListBlocks_def plainDoc_def matchesContainer_def localName_def toLowerCase_def
      lowerChar_def upperLetters_def lowerLetters_def classList_def getAttribute_def orEmpty_def containerBlocks_def groupKids_def
      List.map_filter_def slice0_def)

lemma plainDoc_pagination: "getPaginationCandidates h plainDoc = []"
  by (simp add: getPaginationCandidates_def scoredCandidates_def plainDoc_def localName_def
      toLowerCase_def lowerChar_def upperLetters_def lowerLetters_def slice0_def)

lemma colliding_registered:
  "registered defaultOptions collidingPage =
     [nodeRefOf ''main'' (bareRef ''#Aa''), nodeRefOf ''main'' (bareRef ''#BB'')]"
  by (simp add: registered_def pageFrames_def defaultOptions_def collidingPage_def
      collidingFrame_def frameRawRefs_def plainDoc_lists plainDoc_pagination)

lemma colliding_controls:
  "controls (compact (build defaultOptions collidingPage)) =
     [nodeRefOf ''main'' (bareRef ''#Aa''), nodeRefOf ''main'' (bareRef ''#BB'')]"
  by (simp add: build_def Let_def pageFrames_def defaultOptions_def collidingPage_def
      collidingFrame_def frameStep_def emptyAcc_def plainDoc_lists plainDoc_pagination
      mapWith_addRef mergeLimits_def DEFAULT_LIMITS_def slice0_def)

lemma colliding_refMap:
  "refMap (build defaultOptions collidingPage) ''rmain-pu8yg0''
     = Some \<lparr>entrySelector = ''#BB'', entryFrameId = ''main''\<rparr>"
  by (simp add: build_refMap colliding_registered writeRef_def nodeRefOf_def bareRef_def
      refId_Aa refId_BB)

theorem refMap_collision_counterexample:
  "\<not> (\<forall>nr \<in> set (compactRefs (compact (build defaultOptions collidingPage))).
        \<exists>e. refMap (build defaultOptions collidingPage) (refId nr) = Some e \<and>
            entrySelector e = selector nr \<and> entryFrameId e = frameId nr)"
proof
  assume a: "\<forall>nr \<in> set (compactRefs (compact (build defaultOptions collidingPage))).
        \<exists>e. refMap (build defaultOptions collidingPage) (refId nr) = Some e \<and>
            entrySelector e = selector nr \<and> entryFrameId e = frameId nr"
  have "nodeRefOf ''main'' (bareRef ''#Aa'') \<in> set (compactRefs (compact (build defaultOptions collidingPage)))"
    by (simp add: compactRefs_def colliding_controls)
  from a [rule_format, OF this] show False
    by (simp add: nodeRefOf_def bareRef_def refId_Aa colliding_refMap)
qed

theorem refMap_resolves_witness:
  "refId (nodeRefOf ''main'' (bareRef ''#BB'')) = ''rmain-pu8yg0'' \<and>
   (\<exists>e. refMap (build defaultOptions collidingPage) ''rmain-pu8yg0'' = Some e \<and>
        entryFrameId e = ''main'')"
proof -
  have "nodeRefOf ''main'' (bareRef ''#BB'') \<in> set (compactRefs (compact (build defaultOptions collidingPage)))"
    by (simp add: compactRefs_def colliding_controls)
  from refMap_resolves [of defaultOptions collidingPage, rule_format, OF this]
  show ?thesis
    by (auto simp add: nodeRefOf_def bareRef_def refId_BB)
qed

lemma frameStep_pagination:
  "accPagination (frameStep lims acc ff) = accPagination acc @ framePagination ff"
  by (simp add: frameStep_def Let_def mapWith_addRef mapWith_addListRef mapWith_addFormRefs
      framePagination_def split: prod.splits)

lemma foldl_frameStep_pagination:
  "accPagination (foldl (frameStep lims) acc fs) = accPagination acc @ concat (map framePagination fs)"
  by (induction fs arbitrary: acc) (simp_all add: frameStep_pagination)

lemma build_pagination:
  "pagination (compact (build opts page)) =
     slice0 2 (rankPagination (concat (map framePagination (pageFrames opts page))))"
  by (simp add: build_def Let_def foldl_frameStep_pagination emptyAcc_def)

lemma rankFrom_distinct:
  "distinct (map paginationKey cs) \<Longrightarrow> set (map paginationKey cs) \<inter> set seen = {} \<Longrightarrow>
   rankFrom seen cs = cs"
  by (induction cs arbitrary: seen) auto

lemma distinct_map_insort_key:
  "distinct (map g (insort_key f x xs)) = (g x \<notin> g ` set xs \<and> distinct (map g xs))"
  by (induction xs) (auto simp add: set_insort_key)

lemma distinct_map_sort_key:
  "distinct (map g (sort_key f xs)) = distinct (map g xs)"
  by (induction xs) (simp_all add: distinct_map_insort_key)

lemma take_take_min: "take 2 (take 4 xs) = take 2 xs"
  by simp

lemma sort_key_hd_least:
  assumes "x \<in> set xs"
  shows "sort_key f xs \<noteq> [] \<and> hd (sort_key f xs) \<in> set xs \<and> f (hd (sort_key f xs)) \<le> f x"
proof -
  from assms have ne: "sort_key f xs \<noteq> []" by (cases xs) auto
  then obtain y ys where s: "sort_key f xs = y # ys" by (cases "sort_key f xs") auto
  have "sorted (map f (sort_key f xs))" by simp
  with s have "\<forall>z \<in> set (y # ys). f y \<le> f z" by auto
  moreover have "x \<in> set (y # ys)" using assms s set_sort [of f xs] by simp
  moreover have "y \<in> set xs" using s set_sort [of f xs] by (metis list.set_intros(1))
  ultimately show ?thesis using s by auto
qed

lemma single_frame_pagination:
  assumes one: "pageFrames opts page = [(fr, fid)]"
    and keys: "distinct (map (\<lambda>c. paginationKey (nodeRefOf fid (fst c)))
                        (scoredCandidates (innerHeight fr) (document fr)))"
  shows "pagination (compact (build opts page)) =
           map (\<lambda>c. nodeRefOf fid (fst c))
             (take 2 (sort_key (\<lambda>c. - int (snd c)) (scoredCandidates (innerHeight fr) (document fr))))"
proof -
  let ?sorted = "sort_key (\<lambda>c. - int (snd c)) (scoredCandidates (innerHeight fr) (document fr))"
  have d: "distinct (map (\<lambda>c. paginationKey (nodeRefOf fid (fst c))) (take 4 ?sorted))"
    using keys distinct_map_sort_key [of "\<lambda>c. paginationKey (nodeRefOf fid (fst c))"
        "\<lambda>c. - int (snd c)" "scoredCandidates (innerHeight fr) (document fr)"]
    by (simp add: take_map [symmetric] distinct_take del: take_map)
  have fp: "framePagination (fr, fid) = map (\<lambda>c. nodeRefOf fid (fst c)) (take 4 ?sorted)"
    by (simp add: framePagination_def getPaginationCandidates_def slice0_def)
  have "rankPagination (framePagination (fr, fid)) = framePagination (fr, fid)"
    unfolding rankPagination_def
    by (rule rankFrom_distinct) (use d in \<open>simp_all add: fp comp_def\<close>)
  then show ?thesis
    by (simp add: build_pagination one fp slice0_def take_map)
qed

lemma top_candidate_first:
  assumes one: "pageFrames opts page = [(fr, fid)]"
    and keys: "distinct (map (\<lambda>c. paginationKey (nodeRefOf fid (fst c)))
                        (scoredCandidates (innerHeight fr) (document fr)))"
    and a: "a \<in> set (elements (document fr))" "localName a = ''a''" "isPaginationCandidate a"
    and top: "\<forall>b \<in> set (elements (document fr)).
                localName b = ''a'' \<and> isPaginationCandidate b \<and> b \<noteq> a
                  \<longrightarrow> paginationScore (innerHeight fr) b < paginationScore (innerHeight fr) a"
  shows "\<exists>rest. pagination (compact (build opts page)) = nodeRefOf fid (candidateRef a) # rest"
proof -
  let ?cands = "scoredCandidates (innerHeight fr) (document fr)"
  let ?key = "\<lambda>c :: RawRef \<times> nat. - int (snd c)"
  let ?c = "(candidateRef a, paginationScore (innerHeight fr) a)"
  have mem: "?c \<in> set ?cands"
    using a by (auto simp add: scoredCandidates_def)
  from sort_key_hd_least [OF mem, of ?key]
  have ne: "sort_key ?key ?cands \<noteq> []"
    and hd_in: "hd (sort_key ?key ?cands) \<in> set ?cands"
    and le: "?key (hd (sort_key ?key ?cands)) \<le> ?key ?c"
    by simp_all
  from hd_in obtain b where b: "b \<in> set (elements (document fr))" "localName b = ''a''"
      "isPaginationCandidate b"
      and hb: "hd (sort_key ?key ?cands) = (candidateRef b, paginationScore (innerHeight fr) b)"
    by (auto simp add: scoredCandidates_def)
  have "b = a"
  proof (rule ccontr)
    assume "b \<noteq> a"
    with top b have "paginationScore (innerHeight fr) b < paginationScore (innerHeight fr) a" by blast
    with le hb show False by simp
  qed
  with hb have h: "hd (sort_key ?key ?cands) = ?c" by simp
  from ne h obtain rest where "sort_key ?key ?cands = ?c # rest"
    by (cases "sort_key ?key ?cands") auto
  then show ?thesis
    using single_frame_pagination [OF one keys] by simp
qed

lemma elements_anchors:
  "elements textAnchor = [textAnchor]" "elements relAnchor = [relAnchor]"
  "elements moreAnchor = [moreAnchor]"
  by (simp_all add: textAnchor_def relAnchor_def moreAnchor_def)

lemma anchors_of_bodyOf:
  "filter (\<lambda>el. localName el = ''a'') (elements (bodyOf kids))
     = filter (\<lambda>el. localName el = ''a'') (concat (map elements kids))"
  by (simp add: bodyOf_def localName_def toLowerCase_def lowerChar_def upperLetters_def lowerLetters_def)

lemma anchor_names:
  "localName textAnchor = ''a''" "localName relAnchor = ''a''" "localName moreAnchor = ''a''"
  by (simp_all add: localName_def toLowerCase_def lowerChar_def upperLetters_def lowerLetters_def textAnchor_def relAnchor_def
      moreAnchor_def)

lemma anchor_scores:
  "paginationScore 720 textAnchor = 2" "paginationScore 720 relAnchor = 3"
  "paginationScore 720 moreAnchor = 2"
  by (simp_all add: paginationScore_def relNext_def isNextText_def nearBottom_def
      getAttribute_def orEmpty_def toLowerCase_def lowerChar_def upperLetters_def lowerLetters_def textAnchor_def relAnchor_def
      moreAnchor_def)

lemma anchor_candidates:
  "isPaginationCandidate textAnchor" "isPaginationCandidate relAnchor"
  "isPaginationCandidate moreAnchor"
  by (simp_all add: isPaginationCandidate_def relNext_def isNextText_def
      getAttribute_def orEmpty_def toLowerCase_def lowerChar_def upperLetters_def lowerLetters_def textAnchor_def relAnchor_def
      moreAnchor_def)

lemma shell_names:
  "localName (bodyOf kids) = ''html''"
  "localName (Element ''BODY'' [] [] viewport ''html > body'' ''html > body'' [] kids) = ''body''"
  by (simp_all add: bodyOf_def localName_def toLowerCase_def lowerChar_def upperLetters_def lowerLetters_def)

lemma nodeRefOf_fields [simp]:
  "selector (nodeRefOf fid r) = selector r" "href (nodeRefOf fid r) = href r"
  "frameId (nodeRefOf fid r) = fid"
  by (simp_all add: nodeRefOf_def)

lemma candidate_keys:
  "paginationKey (nodeRefOf fid (candidateRef textAnchor)) = ''https://example.com/archive|#txt|'' @ fid"
  "paginationKey (nodeRefOf fid (candidateRef relAnchor)) = ''https://example.com/p/2|#rel|'' @ fid"
  "paginationKey (nodeRefOf fid (candidateRef moreAnchor)) = ''https://example.com/stories|#more|'' @ fid"
  by (simp_all add: paginationKey_def candidateRef_def orEmpty_def textAnchor_def relAnchor_def
      moreAnchor_def)

lemma candidate_selectors:
  "selector (candidateRef textAnchor) = ''#txt''" "selector (candidateRef relAnchor) = ''#rel''"
  "selector (candidateRef moreAnchor) = ''#more''"
  by (simp_all add: candidateRef_def textAnchor_def relAnchor_def moreAnchor_def)

lemma nextPage_frames: "pageFrames defaultOptions nextPage = [(frameOf (bodyOf [textAnchor, relAnchor]), ''main'')]"
  by (simp add: pageFrames_def defaultOptions_def nextPage_def)

lemma framedPage_frames:
  "pageFrames defaultOptions framedPage =
     [(frameOf (bodyOf [textAnchor, moreAnchor]), ''main''), (frameOf (bodyOf [relAnchor]), ''f1'')]"
  by (simp add: pageFrames_def defaultOptions_def framedPage_def toStringRadix_small digit36_def)

lemma scored_next:
  "scoredCandidates 720 (bodyOf [textAnchor, relAnchor]) =
     [(candidateRef textAnchor, 2), (candidateRef relAnchor, 3)]"
  by (simp add: scoredCandidates_def anchors_of_bodyOf elements_anchors anchor_names
      anchor_candidates anchor_scores)

lemma scored_main:
  "scoredCandidates 720 (bodyOf [textAnchor, moreAnchor]) =
     [(candidateRef textAnchor, 2), (candidateRef moreAnchor, 2)]"
  by (simp add: scoredCandidates_def anchors_of_bodyOf elements_anchors anchor_names
      anchor_candidates anchor_scores)

lemma scored_child:
  "scoredCandidates 720 (bodyOf [relAnchor]) = [(candidateRef relAnchor, 3)]"
  by (simp add: scoredCandidates_def anchors_of_bodyOf elements_anchors anchor_names
      anchor_candidates anchor_scores)

lemma framed_merge:
  "rankPagination (concat (map framePagination (pageFrames defaultOptions framedPage))) =
     [nodeRefOf ''main'' (candidateRef textAnchor), nodeRefOf ''main'' (candidateRef moreAnchor),
      nodeRefOf ''f1'' (candidateRef relAnchor)]"
  by (simp add: framedPage_frames framePagination_def getPaginationCandidates_def frameOf_def
      scored_main scored_child slice0_def rankPagination_def candidate_keys)

lemma splitPage_frames:
  "pageFrames defaultOptions splitPage =
     [(frameOf (bodyOf [textAnchor]), ''main''), (frameOf (bodyOf [relAnchor]), ''f1'')]"
  by (simp add: pageFrames_def defaultOptions_def splitPage_def toStringRadix_small digit36_def)

lemma scored_text:
  "scoredCandidates 720 (bodyOf [textAnchor]) = [(candidateRef textAnchor, 2)]"
  by (simp add: scoredCandidates_def anchors_of_bodyOf elements_anchors anchor_names
      anchor_candidates anchor_scores)

lemma split_merge:
  "rankPagination (concat (map framePagination (pageFrames defaultOptions splitPage))) =
     [nodeRefOf ''main'' (candidateRef textAnchor), nodeRefOf ''f1'' (candidateRef relAnchor)]"
  by (simp add: splitPage_frames framePagination_def getPaginationCandidates_def frameOf_def
      scored_text scored_child slice0_def rankPagination_def candidate_keys)

text \<open>
  C5, at pages of two frames. Every frame scores its candidates, sorts them by score
  and returns them without the scores; \<open>rankPagination\<close> then only removes repeated
  keys from the frames' lists, one after the other, and the first two are kept. With an
  anchor that has only the text \<open>Next\<close> (score 2) in the main frame and a \<open>rel=next\<close>
  anchor (score 3) in a child frame, the anchor with the text comes first in the
  snapshot's pagination list and the \<open>rel=next\<close> anchor second. With a second anchor of
  score 2 in the main frame, the two anchors of the main frame are kept and the
  \<open>rel=next\<close> anchor is dropped, though it is among what \<open>rankPagination\<close> returns.
\<close>

theorem rankPagination_frame_order:
  "map selector (pagination (compact (build defaultOptions splitPage))) = [''#txt'', ''#rel'']
   \<and> map selector (pagination (compact (build defaultOptions framedPage))) = [''#txt'', ''#more'']
   \<and> nodeRefOf ''f1'' (candidateRef relAnchor)
       \<in> set (rankPagination (concat (map framePagination (pageFrames defaultOptions framedPage))))
   \<and> paginationScore 720 relAnchor = 3
   \<and> paginationScore 720 textAnchor = 2 \<and> paginationScore 720 moreAnchor = 2"
  by (simp add: build_pagination framed_merge split_merge slice0_def candidate_selectors anchor_scores)

text \<open>
  Within the list of one frame the order is that of the scores. A candidate's score is
  3 for \<open>rel=next\<close>, 2 for next-like text, 2 for a page, p, offset or start parameter and
  1 for a bottom edge below 60% of the viewport height, so a \<open>rel=next\<close> anchor scores
  at least 3 and an anchor with only the text signal at most 2. Each frame sorts its
  own candidates by score (a stable sort: ties stay in document order) and returns its
  first four. For a page of one frame whose candidates have pairwise different keys
  the two candidates kept are the two top-scoring ones, and a candidate that scores
  more than every other one comes first.
\<close>

theorem pagination_ranking:
  "pagination (compact (build opts page)) =
     slice0 2 (rankPagination (concat (map framePagination (pageFrames opts page))))
   \<and> (relNext a \<longrightarrow> 3 \<le> paginationScore h a)
   \<and> (\<not> relNext b \<and> \<not> hasPageParam (orEmpty (getAttribute b ''href'')) \<and> \<not> nearBottom h b
        \<longrightarrow> paginationScore h b \<le> 2)
   \<and> (pageFrames opts page = [(fr, fid)] \<and>
       distinct (map (\<lambda>c. paginationKey (nodeRefOf fid (fst c)))
                  (scoredCandidates (innerHeight fr) (document fr)))
       \<longrightarrow> pagination (compact (build opts page)) =
             map (\<lambda>c. nodeRefOf fid (fst c))
               (take 2 (sort_key (\<lambda>c. - int (snd c))
                          (scoredCandidates (innerHeight fr) (document fr))))
           \<and> (a \<in> set (elements (document fr)) \<and> localName a = ''a'' \<and> isPaginationCandidate a \<and>
               (\<forall>b \<in> set (elements (document fr)).
                   localName b = ''a'' \<and> isPaginationCandidate b \<and> b \<noteq> a
                     \<longrightarrow> paginationScore (innerHeight fr) b < paginationScore (innerHeight fr) a)
               \<longrightarrow> (\<exists>rest. pagination (compact (build opts page))
                              = nodeRefOf fid (candidateRef a) # rest)))"
proof (intro conjI impI)
  show "pagination (compact (build opts page)) =
     slice0 2 (rankPagination (concat (map framePagination (pageFrames opts page))))"
    by (rule build_pagination)
next
  assume "relNext a"
  then show "3 \<le> paginationScore h a" by (simp add: paginationScore_def)
next
  assume "\<not> relNext b \<and> \<not> hasPageParam (orEmpty (getAttribute b ''href'')) \<and> \<not> nearBottom h b"
  then show "paginationScore h b \<le> 2" by (simp add: paginationScore_def)
next
  assume "pageFrames opts page = [(fr, fid)] \<and>
       distinct (map (\<lambda>c. paginationKey (nodeRefOf fid (fst c)))
                  (scoredCandidates (innerHeight fr) (document fr)))"
  then show "pagination (compact (build opts page)) =
             map (\<lambda>c. nodeRefOf fid (fst c))
               (take 2 (sort_key (\<lambda>c. - int (snd c))
                          (scoredCandidates (innerHeight fr) (document fr))))"
    using single_frame_pagination by blast
next
  assume "pageFrames opts page = [(fr, fid)] \<and>
       distinct (map (\<lambda>c. paginationKey (nodeRefOf fid (fst c)))
                  (scoredCandidates (innerHeight fr) (document fr)))"
    and "a \<in> set (elements (document fr)) \<and> localName a = ''a'' \<and> isPaginationCandidate a \<and>
               (\<forall>b \<in> set (elements (document fr)).
                   localName b = ''a'' \<and> isPaginationCandidate b \<and> b \<noteq> a
                     \<longrightarrow> paginationScore (innerHeight fr) b < paginationScore (innerHeight fr) a)"
  then show "\<exists>rest. pagination (compact (build opts page)) = nodeRefOf fid (candidateRef a) # rest"
    using top_candidate_first [of opts page fr fid a] by blast
qed

theorem pagination_ranking_witness:
  "map selector (pagination (compact (build defaultOptions nextPage))) = [''#rel'', ''#txt'']
   \<and> (\<exists>rest. pagination (compact (build defaultOptions nextPage))
               = nodeRefOf ''main'' (candidateRef relAnchor) # rest)"
proof -
  let ?fr = "frameOf (bodyOf [textAnchor, relAnchor])"
  have ih: "innerHeight ?fr = 720" and doc: "document ?fr = bodyOf [textAnchor, relAnchor]"
    by (simp_all add: frameOf_def)
  have keys: "distinct (map (\<lambda>c. paginationKey (nodeRefOf ''main'' (fst c)))
                  (scoredCandidates (innerHeight ?fr) (document ?fr)))"
    by (simp add: ih doc scored_next candidate_keys)
  have el: "elements (bodyOf [textAnchor, relAnchor]) =
      [bodyOf [textAnchor, relAnchor],
       Element ''BODY'' [] [] viewport ''html > body'' ''html > body'' [] [textAnchor, relAnchor],
       textAnchor, relAnchor]"
    by (simp add: bodyOf_def elements_anchors)
  have ne: "textAnchor \<noteq> relAnchor"
    by (simp add: textAnchor_def relAnchor_def)
  have top: "relAnchor \<in> set (elements (document ?fr)) \<and> localName relAnchor = ''a'' \<and>
       isPaginationCandidate relAnchor \<and>
       (\<forall>b \<in> set (elements (document ?fr)).
           localName b = ''a'' \<and> isPaginationCandidate b \<and> b \<noteq> relAnchor
             \<longrightarrow> paginationScore (innerHeight ?fr) b < paginationScore (innerHeight ?fr) relAnchor)"
    by (simp add: ih doc el anchor_names anchor_candidates anchor_scores shell_names)
  note r = pagination_ranking [of defaultOptions nextPage relAnchor 720 textAnchor ?fr "''main''"]
  note s = r [THEN conjunct2, THEN conjunct2, THEN conjunct2, THEN mp,
      OF conjI [OF nextPage_frames keys]]
  show ?thesis
    using s [THEN conjunct1] s [THEN conjunct2, THEN mp, OF top]
    by (simp add: ih doc scored_next candidate_selectors)
qed

lemma groupKids_snoc:
  "groupKids (ks @ [k]) = addToGroup (signature k) k (groupKids ks)"
  by (simp add: groupKids_def)

lemma addToGroup_members:
  "(s', arr) \<in> set (addToGroup s k groups) \<Longrightarrow>
   set arr \<subseteq> insert k (\<Union>(set ` snd ` set groups))"
proof (induction groups)
  case Nil
  then show ?case by simp
next
  case (Cons g groups)
  obtain s0 arr0 where g: "g = (s0, arr0)" by (cases g)
  show ?case
  proof (cases "s = s0")
    case True
    with Cons.prems g show ?thesis by auto
  next
    case False
    with Cons.prems g have "(s', arr) = (s0, arr0) \<or> (s', arr) \<in> set (addToGroup s k groups)"
      by simp
    then show ?thesis
    proof
      assume "(s', arr) = (s0, arr0)"
      with g show ?thesis by auto
    next
      assume "(s', arr) \<in> set (addToGroup s k groups)"
      from Cons.IH [OF this] show ?thesis by auto
    qed
  qed
qed

lemma addToGroup_sizes:
  "sum_list (map (\<lambda>g. length (snd g)) (addToGroup s k groups))
     = Suc (sum_list (map (\<lambda>g. length (snd g)) groups))"
  by (induction groups) auto

lemma groupKids_members:
  "(s, arr) \<in> set (groupKids kids) \<Longrightarrow> set arr \<subseteq> set kids"
proof (induction kids arbitrary: s arr rule: rev_induct)
  case Nil
  then show ?case by (simp add: groupKids_def)
next
  case (snoc k ks)
  from snoc.prems have "set arr \<subseteq> insert k (\<Union>(set ` snd ` set (groupKids ks)))"
    unfolding groupKids_snoc by (rule addToGroup_members)
  moreover have "\<Union>(set ` snd ` set (groupKids ks)) \<subseteq> set ks"
    using snoc.IH by fastforce
  ultimately show ?case by auto
qed

lemma groupKids_sizes:
  "sum_list (map (\<lambda>g. length (snd g)) (groupKids kids)) = length kids"
  by (induction kids rule: rev_induct) (simp_all add: groupKids_def addToGroup_sizes)

lemma groupKids_length:
  assumes "(s, arr) \<in> set (groupKids kids)"
  shows "length arr \<le> length kids"
proof -
  have "length (snd (s, arr)) \<le> sum_list (map (\<lambda>g. length (snd g)) (groupKids kids))"
    using assms by (intro member_le_sum_list) force+
  then show ?thesis by (simp add: groupKids_sizes)
qed

lemma groupKids_uniform:
  assumes "kids \<noteq> []" and "\<forall>k \<in> set kids. signature k = sg"
  shows "groupKids kids = [(sg, kids)]"
  using assms
proof (induction kids rule: rev_induct)
  case Nil
  then show ?case by simp
next
  case (snoc k ks)
  show ?case
  proof (cases "ks = []")
    case True
    with snoc.prems show ?thesis by (simp add: groupKids_def)
  next
    case False
    with snoc have "groupKids ks = [(sg, ks)]" by simp
    with snoc.prems show ?thesis by (simp add: groupKids_snoc)
  qed
qed

lemma children_in_elements:
  "c \<in> set (elements doc) \<Longrightarrow> k \<in> set (children c) \<Longrightarrow> k \<in> set (elements doc)"
proof (induction doc rule: elements.induct)
  case (1 t a i r s p h ks)
  show ?case
  proof (cases "c = Element t a i r s p h ks")
    case True
    with 1 obtain k' where "k' \<in> set ks" "k = k'" by auto
    moreover have "k \<in> set (elements k)" by (cases k) simp
    ultimately show ?thesis by auto
  next
    case False
    with "1.prems" obtain d where d: "d \<in> set ks" "c \<in> set (elements d)" by auto
    from "1.IH" [OF d "1.prems"(2)] d show ?thesis by auto
  qed
qed

lemma listBlockOf_Some:
  assumes "listBlockOf arr = Some lb"
  shows "arr \<noteq> [] \<and> 8 \<le> length arr \<and> 200 \<le> area (hd arr) \<and>
         itemCount lb = length arr \<and> selector (listRoot lb) = cssFor (hd arr)"
  using assms
  by (cases arr) (auto simp add: listBlockOf_def Let_def bareRef_def split: if_splits)

lemma containerBlocks_member:
  assumes "lb \<in> set (containerBlocks c)"
  shows "8 \<le> itemCount lb \<and>
         (\<exists>first \<in> set (children c). selector (listRoot lb) = cssFor first \<and> 200 \<le> area first)"
proof -
  from assms obtain s arr where g: "(s, arr) \<in> set (groupKids (children c))"
    and lb: "listBlockOf arr = Some lb"
    by (auto simp add: containerBlocks_def List.map_filter_def)
  from listBlockOf_Some [OF lb] groupKids_members [OF g]
  show ?thesis by (cases arr) auto
qed

lemma getListBlocks_subset:
  "set (getListBlocks doc n) \<subseteq> (\<Union>c \<in> set (filter matchesContainer (elements doc)). set (containerBlocks c))"
  using set_slice0 [of n] by (fastforce simp add: getListBlocks_def Let_def)

lemma getListBlocks_invariant:
  assumes "lb \<in> set (getListBlocks doc n)"
  shows "8 \<le> itemCount lb \<and>
         (\<exists>first \<in> set (elements doc). selector (listRoot lb) = cssFor first \<and> 200 \<le> area first)"
proof -
  from assms getListBlocks_subset obtain c where c: "c \<in> set (elements doc)"
    and lb: "lb \<in> set (containerBlocks c)" by fastforce
  from containerBlocks_member [OF lb] children_in_elements [OF c] show ?thesis by blast
qed

lemma containerBlocks_few:
  assumes "length (children c) < 8"
  shows "containerBlocks c = []"
proof -
  have "listBlockOf arr = None" if "(s, arr) \<in> set (groupKids (children c))" for s arr
    using groupKids_length [OF that] assms
    by (cases arr) (simp_all add: listBlockOf_def)
  then show ?thesis
    by (auto simp add: containerBlocks_def List.map_filter_def filter_empty_conv)
qed

lemma getListBlocks_few:
  assumes "\<forall>c \<in> set (filter matchesContainer (elements doc)). length (children c) < 8"
  shows "getListBlocks doc n = []"
proof -
  have "concat (map containerBlocks (filter matchesContainer (elements doc))) = []"
    using assms by (simp add: containerBlocks_few)
  then show ?thesis by (simp add: getListBlocks_def Let_def slice0_def del: concat_eq_Nil_conv)
qed

lemma getListBlocks_uniform:
  assumes only: "filter matchesContainer (elements doc) = [c]"
    and sg: "\<forall>k \<in> set (children c). signature k = sg"
    and n: "8 \<le> length (children c)"
    and big: "200 \<le> area (hd (children c))"
    and m: "1 \<le> maxLists'"
  shows "\<exists>lb. getListBlocks doc maxLists' = [lb] \<and> itemCount lb = length (children c) \<and>
              selector (listRoot lb) = cssFor (hd (children c))"
proof -
  from n have ne: "children c \<noteq> []" by auto
  from groupKids_uniform [OF ne sg] have g: "groupKids (children c) = [(sg, children c)]" .
  from ne n big obtain lb where lb: "listBlockOf (children c) = Some lb"
    by (cases "children c") (auto simp add: listBlockOf_def Let_def)
  have "containerBlocks c = [lb]"
    by (simp add: containerBlocks_def g List.map_filter_def lb)
  with only m have "getListBlocks doc maxLists' = [lb]"
    by (simp add: getListBlocks_def Let_def slice0_def)
  with listBlockOf_Some [OF lb] show ?thesis by simp
qed

lemma elements_spanCell: "elements spanCell = [spanCell]"
  by (simp add: spanCell_def)

lemma elements_storyCard: "elements (storyCard m i) = storyCard m i # replicate m spanCell"
proof -
  have "concat (map elements (replicate m spanCell)) = replicate m spanCell"
    by (induction m) (simp_all add: elements_spanCell)
  then show ?thesis by (simp add: storyCard_def)
qed

lemma card_not_container:
  "\<not> matchesContainer spanCell" "\<not> matchesContainer (storyCard m i)"
  by (simp_all add: matchesContainer_def localName_def toLowerCase_def lowerChar_def upperLetters_def lowerLetters_def classList_def
      getAttribute_def orEmpty_def isSpace_def spanCell_def storyCard_def)

lemma storyCard_fields:
  "children (storyCard m i) = replicate m spanCell"
  "tagName (storyCard m i) = ''DIV''"
  "area (storyCard m i) = 36000"
  "cssFor (storyCard m i) = ''html > body > div.card:nth-of-type('' @ toStringRadix 10 i @ '')''"
  by (simp_all add: storyCard_def area_def)

lemma signature_storyCard:
  "signature (storyCard m i) = (m, replicate (min 6 m) ''SPAN'')"
  by (simp add: signature_def storyCard_fields spanCell_def take_replicate min.commute)

lemma containers_bodyOf:
  "list_all (\<lambda>k. filter matchesContainer (elements k) = []) kids \<Longrightarrow>
   filter matchesContainer (elements (bodyOf kids))
     = [Element ''BODY'' [] [] viewport ''html > body'' ''html > body'' [] kids]"
proof -
  assume "list_all (\<lambda>k. filter matchesContainer (elements k) = []) kids"
  then have "filter matchesContainer (concat (map elements kids)) = []"
    by (induction kids) simp_all
  then show ?thesis
    by (simp add: bodyOf_def matchesContainer_def localName_def toLowerCase_def lowerChar_def upperLetters_def lowerLetters_def
        classList_def getAttribute_def orEmpty_def)
qed

lemma storyCard_containers: "filter matchesContainer (elements (storyCard m i)) = []"
proof -
  have "filter matchesContainer (replicate m spanCell) = []"
    by (induction m) (simp_all add: card_not_container)
  then show ?thesis by (simp add: elements_storyCard card_not_container)
qed

lemma containers_of_cards:
  "filter matchesContainer (elements (bodyOf (map (storyCard m) is @ map (storyCard m') js)))
     = [Element ''BODY'' [] [] viewport ''html > body'' ''html > body'' [] (map (storyCard m) is @ map (storyCard m') js)]"
  by (rule containers_bodyOf) (auto simp add: list_all_iff storyCard_containers)

text \<open>
  C4, as the code has it. Every ListBlock that \<open>getListBlocks\<close> returns counts at least
  8 items and its root selector is that of an element of the document whose bounding
  box has an area of at least 200. The children of a container (\<open>main\<close>, an element of
  class \<open>content\<close>, \<open>body\<close>) are grouped by their signature: the number of their own
  children and the tag names of the first six of them; the tag of the child itself is
  not part of it. So a document whose only container has at least 8 children (10, say),
  all of one signature, the first with an area of at least 200, yields exactly one
  ListBlock, which counts them all, when \<open>maxLists\<close> is at least 1; and a document none
  of whose containers has 8 children (5 identical siblings, say) yields none.
\<close>

theorem list_detector:
  "(\<forall>lb \<in> set (getListBlocks doc n).
       8 \<le> itemCount lb \<and>
       (\<exists>first \<in> set (elements doc). selector (listRoot lb) = cssFor first \<and> 200 \<le> area first))
   \<and> (filter matchesContainer (elements doc) = [c] \<and>
       (\<forall>k \<in> set (children c). signature k = sg) \<and>
       8 \<le> length (children c) \<and> 200 \<le> area (hd (children c)) \<and> 1 \<le> n
       \<longrightarrow> (\<exists>lb. getListBlocks doc n = [lb] \<and> itemCount lb = length (children c) \<and>
                 selector (listRoot lb) = cssFor (hd (children c))))
   \<and> ((\<forall>c \<in> set (filter matchesContainer (elements doc)). length (children c) < 8)
       \<longrightarrow> getListBlocks doc n = [])"
  using getListBlocks_invariant [of _ doc n] getListBlocks_uniform [of doc c sg n]
    getListBlocks_few [of doc n]
  by blast

theorem list_detector_witness:
  "(\<exists>lb. getListBlocks (bodyOf tenCards) 2 = [lb] \<and> itemCount lb = 10 \<and>
         selector (listRoot lb) = ''html > body > div.card:nth-of-type(1)'')
   \<and> getListBlocks (bodyOf fiveCards) 2 = []"
proof -
  let ?body = "\<lambda>kids. Element ''BODY'' [] [] viewport ''html > body'' ''html > body'' [] kids"
  have c10: "filter matchesContainer (elements (bodyOf tenCards)) = [?body tenCards]"
    using containers_of_cards [of 6 "[1, 2, 3, 4, 5, 6, 7, 8, 9, 10]" 6 "[]"]
    by (simp add: tenCards_def)
  have c5: "filter matchesContainer (elements (bodyOf fiveCards)) = [?body fiveCards]"
    using containers_of_cards [of 6 "[1, 2, 3, 4, 5]" 6 "[]"]
    by (simp add: fiveCards_def)
  have sg: "\<forall>k \<in> set (children (?body tenCards)). signature k = (6, replicate 6 ''SPAN'')"
    by (simp add: tenCards_def signature_storyCard)
  have ten: "filter matchesContainer (elements (bodyOf tenCards)) = [?body tenCards] \<and>
       (\<forall>k \<in> set (children (?body tenCards)). signature k = (6, replicate 6 ''SPAN'')) \<and>
       8 \<le> length (children (?body tenCards)) \<and> 200 \<le> area (hd (children (?body tenCards))) \<and>
       1 \<le> (2 :: int)"
    using c10 sg by (simp add: tenCards_def storyCard_fields)
  have five: "\<forall>c \<in> set (filter matchesContainer (elements (bodyOf fiveCards))). length (children c) < 8"
    by (simp add: c5) (simp add: fiveCards_def)
  note t10 = list_detector [of "bodyOf tenCards" 2 "?body tenCards" "(6, replicate 6 ''SPAN'')",
      THEN conjunct2, THEN conjunct1, THEN mp, OF ten]
  note t5 = list_detector [of "bodyOf fiveCards" 2, THEN conjunct2, THEN conjunct2, THEN mp, OF five]
  show ?thesis
    using t10 t5
    by (auto simp add: tenCards_def storyCard_fields toStringRadix_small digit36_def)
qed

text \<open>
  Ten sibling \<open>div\<close>s of the same tag whose first six children are six \<open>span\<close>s, each
  300 by 120 pixels: five have six children and five have seven, the signatures differ
  in the count, the two groups have five members each, and no ListBlock is returned.
\<close>

theorem list_detector_child_count_counterexample:
  "length mixedCards = 10
   \<and> list_all (\<lambda>k. tagName k = ''DIV'' \<and> map tagName (take 6 (children k)) = replicate 6 ''SPAN''
                  \<and> 200 \<le> area k) mixedCards
   \<and> getListBlocks (bodyOf mixedCards) 2 = []"
proof -
  let ?body = "Element ''BODY'' [] [] viewport ''html > body'' ''html > body'' [] mixedCards"
  have c: "filter matchesContainer (elements (bodyOf mixedCards)) = [?body]"
    using containers_of_cards [of 6 "[1, 2, 3, 4, 5]" 7 "[6, 7, 8, 9, 10]"]
    by (simp add: mixedCards_def)
  have g: "groupKids mixedCards =
      [((6, replicate 6 ''SPAN''), map (storyCard 6) [1, 2, 3, 4, 5]),
       ((7, replicate 6 ''SPAN''), map (storyCard 7) [6, 7, 8, 9, 10])]"
    by (simp add: groupKids_def mixedCards_def signature_storyCard)
  have "containerBlocks ?body = []"
    by (simp add: containerBlocks_def g List.map_filter_def listBlockOf_def)
  then have "getListBlocks (bodyOf mixedCards) 2 = []"
    by (simp add: getListBlocks_def c slice0_def)
  moreover have "list_all (\<lambda>k. tagName k = ''DIV'' \<and> map tagName (take 6 (children k)) = replicate 6 ''SPAN''
                  \<and> 200 \<le> area k) mixedCards"
    by (simp add: mixedCards_def storyCard_fields spanCell_def)
  ultimately show ?thesis by (simp add: mixedCards_def)
qed

section \<open>Properties of URL canonicalisation\<close>










lemma toLowerCase_append: "toLowerCase (s @ t) = toLowerCase s @ toLowerCase t"
  by (simp add: toLowerCase_def)

lemma splitOn_not_Nil: "splitOn c s \<noteq> []"
  by (induction s) (simp_all split: list.splits)

lemma splitOn_chars: "w \<in> set (splitOn c s) \<Longrightarrow> set w \<subseteq> set s \<and> c \<notin> set w"
proof (induction s arbitrary: w)
  case Nil
  then show ?case by simp
next
  case (Cons x xs)
  obtain p ps where sp: "splitOn c xs = p # ps"
    using splitOn_not_Nil [of c xs] by (cases "splitOn c xs") auto
  show ?case
  proof (cases "x = c")
    case True
    with Cons show ?thesis by auto
  next
    case False
    with Cons.prems sp have "w = x # p \<or> w \<in> set ps" by simp
    then show ?thesis
    proof
      assume "w = x # p"
      moreover have "set p \<subseteq> set xs \<and> c \<notin> set p" using Cons.IH [of p] sp by simp
      ultimately show ?thesis using False by auto
    next
      assume "w \<in> set ps"
      then have "w \<in> set (splitOn c xs)" using sp by simp
      from Cons.IH [OF this] show ?thesis by auto
    qed
  qed
qed

lemma splitOn_append:
  "c \<notin> set w \<Longrightarrow> splitOn c (w @ c # s) = w # splitOn c s"
  by (induction w) (auto split: list.splits)

lemma splitOn_plain: "c \<notin> set w \<Longrightarrow> splitOn c w = [w]"
  by (induction w) (auto split: list.splits)

lemma splitOn_joinWith:
  "ws \<noteq> [] \<Longrightarrow> \<forall>w \<in> set ws. c \<notin> set w \<Longrightarrow> splitOn c (joinWith c ws) = ws"
proof (induction c ws rule: joinWith.induct)
  case (1 c)
  then show ?case by simp
next
  case (2 c w)
  then show ?case by (simp add: splitOn_plain)
next
  case (3 c w v ws)
  then show ?case by (simp add: splitOn_append)
qed

lemma joinWith_chars:
  "set (joinWith c ws) \<subseteq> insert c (\<Union>(set ` set ws))"
  by (induction c ws rule: joinWith.induct) auto

lemma takeWhile_stop: "\<forall>x \<in> set xs. P x \<Longrightarrow> \<not> P y \<Longrightarrow> takeWhile P (xs @ y # ys) = xs"
  by (induction xs) auto

lemma dropWhile_stop: "\<forall>x \<in> set xs. P x \<Longrightarrow> \<not> P y \<Longrightarrow> dropWhile P (xs @ y # ys) = y # ys"
  by (induction xs) auto

lemma takeWhile_all: "\<forall>x \<in> set xs. P x \<Longrightarrow> takeWhile P xs = xs"
  by (induction xs) auto

lemma dropWhile_all: "\<forall>x \<in> set xs. P x \<Longrightarrow> dropWhile P xs = []"
  by (induction xs) auto

lemma pairOf_piece: "CHR ''='' \<notin> set n \<Longrightarrow> pairOf (n @ CHR ''='' # v) = (n, v)"
proof -
  assume "CHR ''='' \<notin> set n"
  then have "\<forall>x \<in> set n. x \<noteq> CHR ''=''" by auto
  then show ?thesis
    by (simp add: pairOf_def takeWhile_stop dropWhile_stop)
qed

lemma pairOf_name: "CHR ''='' \<notin> set (fst (pairOf piece))"
  by (auto simp add: pairOf_def dest: set_takeWhileD)

lemma pairOf_chars:
  "set (fst (pairOf piece)) \<subseteq> set piece" "set (snd (pairOf piece)) \<subseteq> set piece"
  by (auto simp add: pairOf_def dest: set_takeWhileD in_set_dropD set_dropWhileD)

lemma parsePairs_good:
  assumes "p \<in> set (parsePairs q)"
  shows "CHR ''='' \<notin> set (fst p) \<and> CHR ''&'' \<notin> set (fst p) \<and> CHR ''&'' \<notin> set (snd p) \<and>
         set (fst p) \<subseteq> set q \<and> set (snd p) \<subseteq> set q"
proof -
  from assms obtain piece where piece: "piece \<in> set (splitOn (CHR ''&'') q)" and p: "p = pairOf piece"
    by (auto simp add: parsePairs_def)
  from splitOn_chars [OF piece] pairOf_chars [of piece] pairOf_name [of piece] p
  show ?thesis by auto
qed

lemma parsePairs_serializePairs:
  assumes "goodPairs l"
  shows "parsePairs (serializePairs l) = l"
proof (cases "l = []")
  case True
  then show ?thesis by (simp add: parsePairs_def serializePairs_def)
next
  case False
  let ?pieces = "map (\<lambda>p. fst p @ CHR ''='' # snd p) l"
  have "\<forall>w \<in> set ?pieces. CHR ''&'' \<notin> set w"
    using assms by (auto simp add: goodPairs_def)
  with False have "splitOn (CHR ''&'') (joinWith (CHR ''&'') ?pieces) = ?pieces"
    by (intro splitOn_joinWith) simp_all
  moreover have "filter (\<lambda>piece. piece \<noteq> []) ?pieces = ?pieces"
    by (induction l) simp_all
  moreover have "map pairOf ?pieces = l"
    using assms by (induction l) (simp_all add: goodPairs_def pairOf_piece)
  ultimately show ?thesis by (simp add: parsePairs_def serializePairs_def)
qed

lemma goodPairs_parsePairs: "goodPairs (filter P (parsePairs q))"
  using parsePairs_good by (auto simp add: goodPairs_def)

lemma parsePairs_empty: "parsePairs [] = []"
  by (simp add: parsePairs_def)

lemma parsePairs_writeBack:
  "goodPairs l \<Longrightarrow> parsePairs (orEmpty (writeBack l)) = l"
  by (simp add: writeBack_def orEmpty_def parsePairs_empty parsePairs_serializePairs)

lemma delete_fields:
  "scheme (searchParams_delete k u) = scheme u" "host (searchParams_delete k u) = host u"
  "pathname (searchParams_delete k u) = pathname u" "fragment (searchParams_delete k u) = fragment u"
  "query (searchParams_delete k u) = writeBack (filter (\<lambda>p. fst p \<noteq> k) (searchParams u))"
  by (simp_all add: searchParams_delete_def Let_def writeBack_def)

lemma delete_params:
  "searchParams (searchParams_delete k u) = filter (\<lambda>p. fst p \<noteq> k) (searchParams u)"
  unfolding searchParams_def [of "searchParams_delete k u"] delete_fields
  by (rule parsePairs_writeBack) (simp add: searchParams_def goodPairs_parsePairs)

lemma fold_delete_fields:
  "scheme (fold searchParams_delete ks u) = scheme u \<and> host (fold searchParams_delete ks u) = host u \<and>
   pathname (fold searchParams_delete ks u) = pathname u \<and>
   fragment (fold searchParams_delete ks u) = fragment u \<and>
   searchParams (fold searchParams_delete ks u) = filter (\<lambda>p. fst p \<notin> set ks) (searchParams u)"
proof (induction ks arbitrary: u)
  case Nil
  then show ?case by simp
next
  case (Cons k ks)
  show ?case
    by (simp add: Cons.IH delete_fields delete_params conj_commute)
qed

lemma fold_delete_query:
  "query u = writeBack (searchParams u) \<Longrightarrow>
   query (fold searchParams_delete ks u) = writeBack (searchParams (fold searchParams_delete ks u))"
proof (induction ks arbitrary: u)
  case Nil
  then show ?case by simp
next
  case (Cons k ks)
  have "query (searchParams_delete k u) = writeBack (searchParams (searchParams_delete k u))"
    by (simp add: delete_fields delete_params)
  from Cons.IH [OF this] show ?case by simp
qed

lemma tracking_delete_query:
  "query (fold searchParams_delete trackingParams u) = writeBack (keptPairs u)"
proof -
  obtain k ks where t: "trackingParams = k # ks" by (simp add: trackingParams_def)
  have "query (searchParams_delete k u) = writeBack (searchParams (searchParams_delete k u))"
    by (simp add: delete_fields delete_params)
  from fold_delete_query [OF this, of ks]
  have "query (fold searchParams_delete trackingParams u)
          = writeBack (searchParams (fold searchParams_delete trackingParams u))"
    by (simp add: t)
  then show ?thesis
    using fold_delete_fields [of trackingParams u] by (simp add: keptPairs_def)
qed

lemma hash_clear_fields:
  "scheme (hash_clear x) = scheme x" "host (hash_clear x) = host x"
  "pathname (hash_clear x) = pathname x" "query (hash_clear x) = query x"
  "fragment (hash_clear x) = None"
  by (simp_all add: hash_clear_def)

lemma ref_ops:
  "newURL referenceURL u (Some b) = new_URL u b" "newURL referenceURL u None = parseAbsolute u"
  "toStringOf referenceURL = URL_toString"
  "protocolOf referenceURL = protocol" "withProtocol referenceURL = set_protocol"
  "hostnameOf referenceURL = hostname" "withHostname referenceURL = set_hostname"
  "hostOf referenceURL = hostname"
  "clearHash referenceURL = hash_clear" "clearSearch referenceURL = search_clear"
  "deleteParam referenceURL = searchParams_delete" "paramKeys referenceURL = searchParams_keys"
  by (simp_all add: referenceURL_def)

lemma canonicalize_eq:
  assumes "wellFormed x"
  shows "canonicalize referenceURL x = x\<lparr>query := writeBack (keptPairs x), fragment := None\<rparr>"
proof -
  let ?u1 = "hash_clear x"
  let ?u2 = "fold searchParams_delete trackingParams ?u1"
  have sp1: "searchParams ?u1 = searchParams x" by (simp add: searchParams_def hash_clear_def)
  have kp: "keptPairs ?u1 = keptPairs x" by (simp add: keptPairs_def sp1)
  have f2: "scheme ?u2 = scheme x" "host ?u2 = host x" "pathname ?u2 = pathname x"
    "fragment ?u2 = None" "searchParams ?u2 = keptPairs x"
    using fold_delete_fields [of trackingParams ?u1]
    by (simp_all add: hash_clear_fields keptPairs_def sp1)
  have q2: "query ?u2 = writeBack (keptPairs x)"
    using tracking_delete_query [of ?u1] by (simp add: kp)
  have u2: "?u2 = x\<lparr>query := writeBack (keptPairs x), fragment := None\<rparr>"
    by (rule URL.equality) (simp_all add: f2 q2)
  let ?u3 = "if searchParams_keys ?u2 = [] then search_clear ?u2 else ?u2"
  have u3: "?u3 = ?u2"
    by (rule URL.equality)
       (auto simp add: searchParams_keys_def f2 q2 search_clear_def writeBack_def)
  have sch: "scheme x = ''http'' \<or> scheme x = ''https''"
    using assms by (simp add: wellFormed_def)
  have p4: "set_protocol (toLowerCase (protocol ?u2)) ?u2 = ?u2"
    using sch
    by (auto simp add: set_protocol_def protocol_def f2 toLowerCase_def lowerChar_def upperLetters_def lowerLetters_def Let_def)
  have hostok: "validHost (host x)" "toLowerCase (host x) = host x"
    using assms by (simp_all add: wellFormed_def)
  have p5: "set_hostname (toLowerCase (hostname ?u2)) ?u2 = ?u2"
    by (simp add: set_hostname_def hostname_def f2 hostok)
  have "canonicalize referenceURL x = ?u2"
    unfolding canonicalize_def ref_ops Let_def u3 p4 p5 ..
  with u2 show ?thesis by simp
qed

lemma pairOf_value:
  assumes "length (filter (\<lambda>c. c = CHR ''='') piece) \<le> 1"
  shows "CHR ''='' \<notin> set (snd (pairOf piece))"
proof (cases "dropWhile (\<lambda>c. c \<noteq> CHR ''='') piece")
  case Nil
  show ?thesis unfolding pairOf_def Nil by simp
next
  case (Cons y rest)
  have y: "y = CHR ''=''"
    using hd_dropWhile [of "\<lambda>c. c \<noteq> CHR ''=''" piece] Cons by simp
  obtain tw where piece: "piece = tw @ y # rest"
    using takeWhile_dropWhile_id [of "\<lambda>c. c \<noteq> CHR ''=''" piece] Cons by metis
  have "length (filter (\<lambda>c. c = CHR ''='') piece)
      = length (filter (\<lambda>c. c = CHR ''='') tw) + Suc (length (filter (\<lambda>c. c = CHR ''='') rest))"
    by (simp add: piece y)
  with assms have "filter (\<lambda>c. c = CHR ''='') rest = []" by simp
  then have "CHR ''='' \<notin> set rest" by (auto simp add: filter_empty_conv)
  with Cons show ?thesis by (simp add: pairOf_def)
qed

lemma validQuery_pairs:
  assumes "validQuery q" and "p \<in> set (parsePairs q)"
  shows "list_all queryChar (fst p) \<and> list_all queryChar (snd p) \<and>
         CHR ''='' \<notin> set (fst p) \<and> CHR ''='' \<notin> set (snd p) \<and>
         CHR ''&'' \<notin> set (fst p) \<and> CHR ''&'' \<notin> set (snd p)"
proof -
  from assms(2) obtain piece where piece: "piece \<in> set (splitOn (CHR ''&'') q)" and p: "p = pairOf piece"
    by (auto simp add: parsePairs_def)
  from assms(1) piece have one: "length (filter (\<lambda>c. c = CHR ''='') piece) \<le> 1"
    by (auto simp add: validQuery_def list_all_iff)
  from assms(1) have "\<forall>c \<in> set q. queryChar c" by (simp add: validQuery_def list_all_iff)
  with parsePairs_good [OF assms(2)] pairOf_value [OF one] p
  show ?thesis by (auto simp add: list_all_iff)
qed

lemma validQuery_serialize:
  assumes l: "l \<noteq> []"
    and ok: "\<forall>p \<in> set l. list_all queryChar (fst p) \<and> list_all queryChar (snd p) \<and>
         CHR ''='' \<notin> set (fst p) \<and> CHR ''='' \<notin> set (snd p) \<and>
         CHR ''&'' \<notin> set (fst p) \<and> CHR ''&'' \<notin> set (snd p)"
  shows "validQuery (serializePairs l)"
proof -
  let ?pieces = "map (\<lambda>p. fst p @ CHR ''='' # snd p) l"
  have chars: "\<forall>w \<in> set ?pieces. list_all queryChar w"
    using ok by (auto simp add: list_all_iff queryChar_def)
  have "queryChar c" if "c \<in> set (joinWith (CHR ''&'') ?pieces)" for c
  proof -
    from that joinWith_chars [of "CHR ''&''" ?pieces]
    have "c = CHR ''&'' \<or> (\<exists>w \<in> set ?pieces. c \<in> set w)" by blast
    then show ?thesis
    proof
      assume "c = CHR ''&''"
      then show ?thesis by (simp add: queryChar_def)
    next
      assume "\<exists>w \<in> set ?pieces. c \<in> set w"
      then obtain w where "w \<in> set ?pieces" "c \<in> set w" by blast
      with chars show ?thesis by (auto simp add: list_all_iff)
    qed
  qed
  then have a: "list_all queryChar (serializePairs l)"
    by (simp add: serializePairs_def list_all_iff)
  have "\<forall>w \<in> set ?pieces. CHR ''&'' \<notin> set w" using ok by auto
  with l have sp: "splitOn (CHR ''&'') (serializePairs l) = ?pieces"
    unfolding serializePairs_def by (intro splitOn_joinWith) simp_all
  have "\<forall>w \<in> set ?pieces. length (filter (\<lambda>c. c = CHR ''='') w) \<le> 1"
    using ok by (force simp add: filter_empty_conv)
  with a sp show ?thesis by (simp add: validQuery_def list_all_iff)
qed

lemma wellFormed_canonicalize:
  assumes "wellFormed x"
  shows "wellFormed (canonicalize referenceURL x)"
proof -
  have q: "case writeBack (keptPairs x) of None \<Rightarrow> True | Some q \<Rightarrow> validQuery q"
  proof (cases "keptPairs x = []")
    case True
    then show ?thesis by (simp add: writeBack_def)
  next
    case False
    then obtain q0 where q0: "query x = Some q0"
      by (cases "query x") (auto simp add: keptPairs_def searchParams_def orEmpty_def parsePairs_empty)
    with assms have v: "validQuery q0" by (simp add: wellFormed_def)
    have "validQuery (serializePairs (keptPairs x))"
      using False validQuery_pairs [OF v]
      by (intro validQuery_serialize) (auto simp add: keptPairs_def searchParams_def q0 orEmpty_def)
    with False show ?thesis by (simp add: writeBack_def)
  qed
  with assms show ?thesis
    by (simp add: canonicalize_eq wellFormed_def)
qed

lemma hostChar_delims: "hostChar c \<Longrightarrow> c \<noteq> CHR ''/'' \<and> c \<noteq> CHR ''?'' \<and> c \<noteq> CHR ''#''"
  by (auto simp add: hostChar_def isAlnum_def isAlpha_def isDigit_def)

lemma pathChar_delims: "pathChar c \<Longrightarrow> c \<noteq> CHR ''?'' \<and> c \<noteq> CHR ''#''"
  by (auto simp add: pathChar_def isAlnum_def isAlpha_def isDigit_def)

lemma queryChar_delims: "queryChar c \<Longrightarrow> c \<noteq> CHR ''#''"
  by (auto simp add: queryChar_def formChar_def isAlnum_def isAlpha_def isDigit_def)

lemma splitTail_join:
  assumes p: "\<forall>c \<in> set p. c \<noteq> CHR ''?'' \<and> c \<noteq> CHR ''#''"
    and q: "case q of None \<Rightarrow> True | Some q' \<Rightarrow> \<forall>c \<in> set q'. c \<noteq> CHR ''#''"
  shows "splitTail (p @ (case q of None \<Rightarrow> [] | Some q' \<Rightarrow> CHR ''?'' # q')
                     @ (case f of None \<Rightarrow> [] | Some f' \<Rightarrow> CHR ''#'' # f')) = (p, q, f)"
proof (cases q)
  case None
  show ?thesis
  proof (cases f)
    case None
    with \<open>q = None\<close> p show ?thesis
      by (simp add: splitTail_def takeWhile_all dropWhile_all)
  next
    case (Some f')
    with \<open>q = None\<close> p show ?thesis
      by (simp add: splitTail_def takeWhile_stop dropWhile_stop)
  qed
next
  case (Some q')
  with q have q': "\<forall>c \<in> set q'. c \<noteq> CHR ''#''" by simp
  show ?thesis
  proof (cases f)
    case None
    with Some p q' show ?thesis
      by (simp add: splitTail_def takeWhile_stop dropWhile_stop takeWhile_all dropWhile_all)
  next
    case (Some f')
    with \<open>q = Some q'\<close> p q' show ?thesis
      by (simp add: splitTail_def takeWhile_stop dropWhile_stop)
  qed
qed

lemma scheme_split:
  assumes "sch = ''http'' \<or> sch = ''https''"
  shows "takeWhile schemeChar (sch @ ''://'' @ r) = sch"
    and "dropWhile schemeChar (sch @ ''://'' @ r) = ''://'' @ r"
    and "hasScheme (sch @ ''://'' @ r)"
    and "toLowerCase sch = sch"
  using assms
  by (auto simp add: hasScheme_def schemeChar_def isAlnum_def isAlpha_def isDigit_def
      toLowerCase_def lowerChar_def upperLetters_def lowerLetters_def)

lemma validPath_nonempty: "validPath p \<Longrightarrow> \<exists>p'. p = CHR ''/'' # p'"
  by (cases p) (auto simp add: validPath_def)

lemma parseAbsolute_toString:
  assumes wf: "wellFormed y"
  shows "parseAbsolute (URL_toString y) = Some y"
proof -
  let ?tail = "(case query y of None \<Rightarrow> [] | Some q' \<Rightarrow> CHR ''?'' # q')
               @ (case fragment y of None \<Rightarrow> [] | Some f' \<Rightarrow> CHR ''#'' # f')"
  let ?P = "\<lambda>c. c \<noteq> CHR ''/'' \<and> c \<noteq> CHR ''?'' \<and> c \<noteq> CHR ''#''"
  from wf have sch: "scheme y = ''http'' \<or> scheme y = ''https''"
    and vh: "validHost (host y)" and lh: "toLowerCase (host y) = host y"
    and vp: "validPath (pathname y)"
    and vq: "case query y of None \<Rightarrow> True | Some q \<Rightarrow> validQuery q"
    by (simp_all add: wellFormed_def)
  from validPath_nonempty [OF vp] obtain p' where p': "pathname y = CHR ''/'' # p'" by blast
  have hc: "\<forall>c \<in> set (host y). ?P c"
    using vh hostChar_delims by (auto simp add: validHost_def list_all_iff)
  have pc: "\<forall>c \<in> set (pathname y). c \<noteq> CHR ''?'' \<and> c \<noteq> CHR ''#''"
    using vp pathChar_delims by (auto simp add: validPath_def list_all_iff)
  have qc: "case query y of None \<Rightarrow> True | Some q' \<Rightarrow> \<forall>c \<in> set q'. c \<noteq> CHR ''#''"
    using vq queryChar_delims by (auto simp add: validQuery_def list_all_iff split: option.splits)
  have str: "URL_toString y = scheme y @ ''://'' @ (host y @ pathname y @ ?tail)"
    by (simp add: URL_toString_def)
  have h1: "takeWhile ?P (host y @ pathname y @ ?tail) = host y"
    using hc by (simp add: p' takeWhile_stop)
  have h2: "dropWhile ?P (host y @ pathname y @ ?tail) = pathname y @ ?tail"
    using hc by (simp add: p' dropWhile_stop)
  have wa: "withAuthority (scheme y) (host y @ pathname y @ ?tail) = Some y"
    unfolding withAuthority_def Let_def h1 h2 splitTail_join [OF pc qc]
    using wf p' by (simp add: lh checked_def del: URL.simps) (simp add: wellFormed_def)
  show ?thesis
    unfolding parseAbsolute_def str Let_def
    using scheme_split(1-3) [OF sch, of "host y @ pathname y @ ?tail"] scheme_split(4) [OF sch]
      sch wa
    by auto
qed

lemma hasScheme_toString: "wellFormed y \<Longrightarrow> hasScheme (URL_toString y)"
  using scheme_split(3) [of "scheme y"]
  by (auto simp add: URL_toString_def wellFormed_def)

lemma new_URL_wellFormed: "new_URL u b = Some x \<Longrightarrow> wellFormed x"
  by (auto simp add: new_URL_def parseAbsolute_def resolve_def withAuthority_def checked_def
      Let_def split: option.splits if_splits prod.splits)

lemma new_URL_toString:
  assumes "new_URL u b = Some x" and "wellFormed y"
  shows "new_URL (URL_toString y) b = Some y"
  using assms hasScheme_toString [OF assms(2)] parseAbsolute_toString [OF assms(2)]
  by (auto simp add: new_URL_def split: option.splits)

lemma keptPairs_canonicalize:
  assumes "wellFormed x"
  shows "keptPairs (canonicalize referenceURL x) = keptPairs x"
proof -
  have "searchParams (canonicalize referenceURL x) = keptPairs x"
    using parsePairs_writeBack [of "keptPairs x"]
    by (simp add: canonicalize_eq [OF assms] searchParams_def [of "x\<lparr>query := _, fragment := _\<rparr>"]
        keptPairs_def goodPairs_parsePairs searchParams_def [of x])
  then show ?thesis by (simp add: keptPairs_def [of "canonicalize referenceURL x"] keptPairs_def [of x])
qed

lemma canonicalize_idem:
  assumes "wellFormed x"
  shows "canonicalize referenceURL (canonicalize referenceURL x) = canonicalize referenceURL x"
  using canonicalize_eq [OF wellFormed_canonicalize [OF assms]] keptPairs_canonicalize [OF assms]
  by (simp add: canonicalize_eq [OF assms])

lemmas url_eval = new_URL_def parseAbsolute_def hasScheme_def withAuthority_def splitTail_def
  checked_def wellFormed_def validHost_def validPath_def validQuery_def validFragment_def
  schemeChar_def hostChar_def pathChar_def queryChar_def formChar_def fragmentChar_def
  isAlnum_def isAlpha_def isDigit_def toLowerCase_def lowerChar_def upperLetters_def lowerLetters_def resolve_def dirname_def

lemma canonicalForDedupe_parsed:
  assumes "new_URL u b = Some x"
  shows "canonicalForDedupe referenceURL b u = URL_toString (x\<lparr>query := writeBack (keptPairs x), fragment := None\<rparr>)"
  using assms canonicalize_eq [OF new_URL_wellFormed [OF assms]]
  by (simp add: canonicalForDedupe_def ref_ops)











































lemma parse_list: "parseAbsolute ''https://example.com/list'' =
    Some \<lparr>scheme = ''https'', host = ''example.com'', pathname = ''/list'', query = None, fragment = None\<rparr>"
  by (simp add: url_eval)


lemma parse_news: "new_URL ''HTTPS://Example.com/News?utm_source=feed&id=7#top'' ''https://example.com/list'' = Some newsUrl"
  unfolding new_URL_def parse_list by (simp add: url_eval newsUrl_def)


section \<open>Properties of the scraping engine\<close>

lemma keeps_refl: "keeps limit st st"
  by (simp add: keeps_def)

lemma keeps_trans: "keeps limit a b \<Longrightarrow> keeps limit b c \<Longrightarrow> keeps limit a c"
  by (auto simp add: keeps_def)

lemma removeCommonImages_length: "length (removeCommonImages rs) = length rs"
  by (simp add: removeCommonImages_def split: option.splits)

lemma cleanAndDedupeResults_length:
  "0 \<le> n \<Longrightarrow> int (length (cleanAndDedupeResults U st rows n)) \<le> n"
  by (simp add: cleanAndDedupeResults_def Let_def removeCommonImages_length length_slice0)

lemma maxNeededOf_nonneg: "0 \<le> maxNeededOf cfg st"
  by (simp add: maxNeededOf_def)

lemma extract_length:
  assumes "extractItemsFromSnapshot U cfg snap view st = Inr items"
  shows "int (length items) \<le> maxNeededOf cfg st"
proof -
  note c = cleanAndDedupeResults_length [OF maxNeededOf_nonneg, of U st _ cfg]
  from assms show ?thesis
    using c maxNeededOf_nonneg [of cfg st]
    by (auto simp add: extractItemsFromSnapshot_def extractFromSchema_def extractFromSnapshot_def
        extractFromPageAnchors_def Let_def split: if_splits sum.splits list.splits)
qed

lemma extract_zero:
  "maxNeededOf cfg st \<le> 0 \<Longrightarrow> extractItemsFromSnapshot U cfg snap view st = Inr []"
  by (simp add: extractItemsFromSnapshot_def)

lemma push_keeps:
  assumes "extractItemsFromSnapshot U cfg snap view st = Inr items"
  shows "keeps (maxItems cfg) st (pushItems items st)"
  using extract_length [OF assms]
  by (auto simp add: keeps_def pushItems_def maxNeededOf_def)

lemma rootStep_keeps:
  "rootStep U cfg view st = Inl (e, st') \<Longrightarrow> keeps (maxItems cfg) st st' \<and> currentPage st' = currentPage st"
  "rootStep U cfg view st = Inr (snap, st') \<Longrightarrow> keeps (maxItems cfg) st st' \<and> currentPage st' = currentPage st"
proof -
  have k: "keeps (maxItems cfg) st (st\<lparr>currentUrl := u\<rparr>)" for u
    by (simp add: keeps_def)
  have p: "keeps (maxItems cfg) (st\<lparr>currentUrl := u\<rparr>) (pushItems items (st\<lparr>currentUrl := u\<rparr>))"
    if "extractItemsFromSnapshot U cfg snap' view (st\<lparr>currentUrl := u\<rparr>) = Inr items" for u items snap'
    using that by (rule push_keeps)
  show "rootStep U cfg view st = Inl (e, st') \<Longrightarrow> keeps (maxItems cfg) st st' \<and> currentPage st' = currentPage st"
    using k by (auto simp add: rootStep_def Let_def keeps_refl split: sum.splits option.splits)
  show "rootStep U cfg view st = Inr (snap, st') \<Longrightarrow> keeps (maxItems cfg) st st' \<and> currentPage st' = currentPage st"
    using k p keeps_trans
    by (fastforce simp add: rootStep_def Let_def pushItems_def split: sum.splits option.splits)
qed

lemma childStep_keeps:
  "childStep U cfg h reached st = Inl (e, st') \<Longrightarrow> keeps (maxItems cfg) st st' \<and> currentPage st' = currentPage st"
  "childStep U cfg h reached st = Inr st' \<Longrightarrow> keeps (maxItems cfg) st st' \<and> currentPage st' = currentPage st"
proof -
  have k: "keeps (maxItems cfg) st (markVisited h st)"
    by (simp add: keeps_def markVisited_def)
  have p: "keeps (maxItems cfg) (markVisited h st) (pushItems items (markVisited h st))"
    if "extractItemsFromSnapshot U cfg snap' view (markVisited h st) = Inr items" for items snap' view
    using that by (rule push_keeps)
  show "childStep U cfg h reached st = Inl (e, st') \<Longrightarrow> keeps (maxItems cfg) st st' \<and> currentPage st' = currentPage st"
    using k by (auto simp add: childStep_def Let_def keeps_refl markVisited_def split: sum.splits option.splits)
  show "childStep U cfg h reached st = Inr st' \<Longrightarrow> keeps (maxItems cfg) st st' \<and> currentPage st' = currentPage st"
    using k p keeps_trans
    by (fastforce simp add: childStep_def Let_def pushItems_def markVisited_def split: sum.splits option.splits)
qed

lemma followDiscovered_keeps:
  "followDiscovered U cfg goto links st = Inl (e, st') \<Longrightarrow>
     keeps (maxItems cfg) st st' \<and> currentPage st' = currentPage st"
  "followDiscovered U cfg goto links st = Inr st'' \<Longrightarrow>
     keeps (maxItems cfg) st st'' \<and> currentPage st'' = currentPage st"
proof (induction links arbitrary: st)
  case Nil
  { case 1 then show ?case by simp }
  { case 2 then show ?case by (simp add: keeps_refl) }
next
  case (Cons h links)
  { case 1
    show ?case
    proof (cases "\<not> shouldContinue cfg st \<or> isVisited st h")
      case True
      with "1" Cons.IH(1) [of st] show ?thesis by (auto split: if_splits)
    next
      case False
      show ?thesis
      proof (cases "childStep U cfg h (goto h) st")
        case (Inl t)
        with "1" False have "childStep U cfg h (goto h) st = Inl (e, st')" by simp
        then show ?thesis by (rule childStep_keeps(1))
      next
        case (Inr st1)
        with "1" False have "followDiscovered U cfg goto links st1 = Inl (e, st')" by simp
        from Cons.IH(1) [OF this] childStep_keeps(2) [OF Inr] show ?thesis
          using keeps_trans by fastforce
      qed
    qed }
  { case 2
    show ?case
    proof (cases "\<not> shouldContinue cfg st")
      case True
      with "2" show ?thesis by (simp add: keeps_refl)
    next
      case sc: False
      show ?thesis
      proof (cases "isVisited st h")
        case True
        with "2" sc Cons.IH(2) [of st] show ?thesis by simp
      next
        case False
        show ?thesis
        proof (cases "childStep U cfg h (goto h) st")
          case (Inl t)
          with "2" sc False show ?thesis by simp
        next
          case (Inr st1)
          with "2" sc False have "followDiscovered U cfg goto links st1 = Inr st''" by simp
          from Cons.IH(2) [OF this] childStep_keeps(2) [OF Inr] show ?thesis
            using keeps_trans by fastforce
        qed
      qed
    qed }
qed

lemma paginate_keeps:
  "paginate cfg page snap st = Inl (e, st') \<Longrightarrow> st' = st"
  "paginate cfg page snap st = Inr (st', advanced) \<Longrightarrow>
     keeps (maxItems cfg) st st' \<and> currentPage st' = currentPage st + (if advanced then 1 else 0)"
  by (auto simp add: paginate_def keeps_def markVisited_def
      split: option.splits sum.splits if_splits)

lemma cycle_throws:
  assumes "cycle U cfg page st = Inl (e, st')"
  shows "keeps (maxItems cfg) st st' \<and> currentPage st' = currentPage st"
proof (cases "rootStep U cfg (rootView page) st")
  case (Inl t)
  with assms have "rootStep U cfg (rootView page) st = Inl (e, st')" by (simp add: cycle_def)
  then show ?thesis by (rule rootStep_keeps(1))
next
  case (Inr r)
  obtain snap st1 where r: "r = (snap, st1)" by (cases r)
  note a = rootStep_keeps(2) [OF Inr [unfolded r]]
  let ?f = "if followLinks cfg
            then followDiscovered U cfg (safeGoto page) (discoverLinksFromSnapshot U snap st1) st1
            else Inr st1"
  show ?thesis
  proof (cases ?f)
    case (Inl t)
    with assms Inr r have f: "?f = Inl (e, st')" by (simp add: cycle_def)
    then have "keeps (maxItems cfg) st1 st' \<and> currentPage st' = currentPage st1"
      using followDiscovered_keeps(1) [of U cfg "safeGoto page" _ st1 e st']
      by (auto split: if_splits)
    with a show ?thesis using keeps_trans by fastforce
  next
    case (Inr st2)
    then have b: "keeps (maxItems cfg) st1 st2 \<and> currentPage st2 = currentPage st1"
      using followDiscovered_keeps(2) [of U cfg "safeGoto page" _ st1 st2]
      by (auto simp add: keeps_refl split: if_splits)
    from assms \<open>rootStep U cfg (rootView page) st = Inr r\<close> r Inr
    have "paginate cfg page snap st2 = Inl (e, st')" by (simp add: cycle_def)
    from paginate_keeps(1) [OF this] a b show ?thesis using keeps_trans by fastforce
  qed
qed

lemma cycle_returns:
  assumes "cycle U cfg page st = Inr (st', advanced)"
  shows "keeps (maxItems cfg) st st' \<and> currentPage st' = currentPage st + (if advanced then 1 else 0)"
proof (cases "rootStep U cfg (rootView page) st")
  case (Inl t)
  with assms show ?thesis by (simp add: cycle_def)
next
  case (Inr r)
  obtain snap st1 where r: "r = (snap, st1)" by (cases r)
  note a = rootStep_keeps(2) [OF Inr [unfolded r]]
  let ?f = "if followLinks cfg
            then followDiscovered U cfg (safeGoto page) (discoverLinksFromSnapshot U snap st1) st1
            else Inr st1"
  show ?thesis
  proof (cases ?f)
    case (Inl t)
    with assms Inr r show ?thesis by (simp add: cycle_def)
  next
    case (Inr st2)
    then have b: "keeps (maxItems cfg) st1 st2 \<and> currentPage st2 = currentPage st1"
      using followDiscovered_keeps(2) [of U cfg "safeGoto page" _ st1 st2]
      by (auto simp add: keeps_refl split: if_splits)
    from assms \<open>rootStep U cfg (rootView page) st = Inr r\<close> r Inr
    have "paginate cfg page snap st2 = Inr (st', advanced)" by (simp add: cycle_def)
    from paginate_keeps(2) [OF this] a b show ?thesis
      using keeps_trans [of "maxItems cfg" st st1 st2] keeps_trans [of "maxItems cfg" st st2 st']
      by (cases advanced) auto
  qed
qed

lemma after_parts:
  "fst (after evs rest) = evs @ fst rest" "snd (after evs rest) = snd rest"
  by (simp_all add: after_def)

lemma handleError_fields:
  "errors (handleError e st) = errors st @ [\<lparr>errorType = ''extraction'', message = e, errorUrl = currentUrl st\<rparr>]"
  "currentPage (handleError e st) = currentPage st"
  "extractedItems (handleError e st) = extractedItems st"
  by (simp_all add: handleError_def)

lemma loop_events:
  assumes "errors st = [] \<or> int (length (errors st)) < attemptsOf cfg"
  shows "list_all (eventOk cfg) (fst (scrapingLoop U cfg pages st))"
  using assms
proof (induction pages arbitrary: st)
  case Nil
  then show ?case by simp
next
  case (Cons page pages)
  have here: "eventOk cfg (CycleBegins st)"
    using Cons.prems(1) by (simp add: eventOk_def)
  have wait: "eventOk cfg (Waits (delayOf cfg) :: 'a Row_scheme Event)"
    by (simp add: eventOk_def)
  show ?case
  proof (cases "shouldContinue cfg st")
    case False
    then show ?thesis by simp
  next
    case True
    show ?thesis
    proof (cases "cycle U cfg page st")
      case (Inr r)
      obtain st1 advanced where r: "r = (st1, advanced)" by (cases r)
      from cycle_returns [OF Inr [unfolded r]] have e1: "errors st1 = errors st"
        by (simp add: keeps_def)
      from Cons.IH [of st1] Cons.prems e1
      have "list_all (eventOk cfg) (fst (scrapingLoop U cfg pages st1))" by simp
      with True Inr r here show ?thesis by (simp add: after_parts)
    next
      case (Inl t)
      obtain e st1 where t: "t = (e, st1)" by (cases t)
      let ?st2 = "handleError e st1"
      show ?thesis
      proof (cases "int (length (errors ?st2)) \<ge> attemptsOf cfg")
        case True
        with \<open>shouldContinue cfg st\<close> Inl t here show ?thesis
          by (simp add: Let_def)
      next
        case False
        then have "errors ?st2 = [] \<or> int (length (errors ?st2)) < attemptsOf cfg" by simp
        from Cons.IH [OF this] have "list_all (eventOk cfg) (fst (scrapingLoop U cfg pages ?st2))" .
        with False \<open>shouldContinue cfg st\<close> Inl t here wait show ?thesis
          by (simp add: Let_def after_parts)
      qed
    qed
  qed
qed

lemma loop_cycles:
  assumes "maxPages cfg = Some N" and "1 \<le> N" and "currentPage st \<le> N"
    and "snd (scrapingLoop U cfg pages st) = Some res"
  shows "int (cyclesBegun (fst (scrapingLoop U cfg pages st))) + currentPage st + int (length (errors st))
           \<le> N + int (length (metaErrors res))"
  using assms(3,4)
proof (induction pages arbitrary: st)
  case Nil
  then show ?case by (auto simp add: cyclesBegun_def buildResult_def split: if_splits)
next
  case (Cons page pages)
  show ?case
  proof (cases "shouldContinue cfg st")
    case False
    with Cons.prems show ?thesis by (auto simp add: cyclesBegun_def buildResult_def)
  next
    case True
    with assms(1,2) have lt: "currentPage st < N"
      by (auto simp add: shouldContinue_def truthyNum_def split: if_splits)
    show ?thesis
    proof (cases "cycle U cfg page st")
      case (Inr r)
      obtain st1 advanced where r: "r = (st1, advanced)" by (cases r)
      from cycle_returns [OF Inr [unfolded r]]
      have e1: "errors st1 = errors st"
        and p1: "currentPage st1 = currentPage st + (if advanced then 1 else 0)"
        by (simp_all add: keeps_def)
      show ?thesis
      proof (cases advanced)
        case False
        with Cons.prems True Inr r lt e1 show ?thesis
          by (auto simp add: cyclesBegun_def isCycleBegins_def buildResult_def)
      next
        case adv: True
        with Cons.prems(2) True Inr r
        have s: "snd (scrapingLoop U cfg pages st1) = Some res" by (simp add: after_parts)
        from p1 adv lt have "currentPage st1 \<le> N" by simp
        from Cons.IH [OF this s] True Inr r p1 adv e1 show ?thesis
          by (simp add: cyclesBegun_def isCycleBegins_def after_parts)
      qed
    next
      case (Inl t)
      obtain e st1 where t: "t = (e, st1)" by (cases t)
      from cycle_throws [OF Inl [unfolded t]]
      have e1: "errors st1 = errors st" and p1: "currentPage st1 = currentPage st"
        by (simp_all add: keeps_def)
      let ?st2 = "handleError e st1"
      show ?thesis
      proof (cases "int (length (errors ?st2)) \<ge> attemptsOf cfg")
        case True
        with Cons.prems(2) \<open>shouldContinue cfg st\<close> Inl t
        have "fst (scrapingLoop U cfg (page # pages) st) = [CycleBegins st] \<and> res = buildResult cfg ?st2"
          by (auto simp add: Let_def)
        with e1 p1 lt show ?thesis
          by (simp add: cyclesBegun_def isCycleBegins_def buildResult_def handleError_fields)
      next
        case False
        with Cons.prems(2) True Inl t
        have s: "snd (scrapingLoop U cfg pages ?st2) = Some res"
          by (simp add: Let_def after_parts)
        have f: "fst (scrapingLoop U cfg (page # pages) st) =
            [CycleBegins st, Waits (delayOf cfg)] @ fst (scrapingLoop U cfg pages ?st2)"
          using False True Inl t by (simp add: Let_def after_parts)
        have "currentPage ?st2 \<le> N" using p1 lt by (simp add: handleError_fields)
        from Cons.IH [OF this s] e1 p1 show ?thesis
          unfolding f by (simp add: cyclesBegun_def isCycleBegins_def handleError_fields)
      qed
    qed
  qed
qed

lemma loop_items:
  assumes "maxItems cfg = Some m" and "0 \<le> m"
    and "int (length (extractedItems st)) \<le> m"
    and "snd (scrapingLoop U cfg pages st) = Some res"
  shows "int (length (resultData res)) \<le> m"
  using assms(3,4)
proof (induction pages arbitrary: st)
  case Nil
  then show ?case by (auto simp add: buildResult_def split: if_splits)
next
  case (Cons page pages)
  show ?case
  proof (cases "shouldContinue cfg st")
    case False
    with Cons.prems show ?thesis by (auto simp add: buildResult_def)
  next
    case True
    show ?thesis
    proof (cases "cycle U cfg page st")
      case (Inr r)
      obtain st1 advanced where r: "r = (st1, advanced)" by (cases r)
      from cycle_returns [OF Inr [unfolded r]] assms(1,2) Cons.prems(1)
      have i1: "int (length (extractedItems st1)) \<le> m" by (simp add: keeps_def)
      show ?thesis
      proof (cases advanced)
        case False
        with Cons.prems True Inr r i1 show ?thesis by (auto simp add: buildResult_def)
      next
        case adv: True
        with Cons.prems(2) True Inr r
        have "snd (scrapingLoop U cfg pages st1) = Some res" by (simp add: after_parts)
        from Cons.IH [OF i1 this] show ?thesis .
      qed
    next
      case (Inl t)
      obtain e st1 where t: "t = (e, st1)" by (cases t)
      from cycle_throws [OF Inl [unfolded t]] assms(1,2) Cons.prems(1)
      have i1: "int (length (extractedItems st1)) \<le> m" by (simp add: keeps_def)
      let ?st2 = "handleError e st1"
      show ?thesis
      proof (cases "int (length (errors ?st2)) \<ge> attemptsOf cfg")
        case True
        with Cons.prems(2) \<open>shouldContinue cfg st\<close> Inl t
        have "res = buildResult cfg ?st2"
          by (auto simp add: Let_def)
        with i1 show ?thesis
          by (simp add: buildResult_def handleError_fields)
      next
        case False
        with Cons.prems(2) True Inl t
        have s: "snd (scrapingLoop U cfg pages ?st2) = Some res"
          by (simp add: Let_def after_parts)
        have "int (length (extractedItems ?st2)) \<le> m" using i1 by (simp add: handleError_fields)
        from Cons.IH [OF this s] show ?thesis .
      qed
    qed
  qed
qed

lemmas site_eval = settings_def row_def refAt_def listAt_def snapshotAt_def viewOf_def closedView_def
  reachable_def unreachable_def nextLink_def emptyFirst_def emptyLast_def startState_def failure_def

lemmas engine_eval = run_def initializeState_def buildStartUrl_def shouldContinue_def truthyNum_def
  cycle_def rootStep_def paginate_def chooseNextPageHref_def extractItemsFromSnapshot_def
  maxNeededOf_def MAX_SAFE_INTEGER_def extractFromSchema_def extractFromSnapshot_def
  extractFromPageAnchors_def handleError_def attemptsOf_def delayOf_def after_def buildResult_def
  pushItems_def markVisited_def isVisited_def orEmpty_def truthy_def Let_def

lemma clean_nothing: "cleanAndDedupeResults U st [] n = []"
  by (simp add: cleanAndDedupeResults_def removeCommonImages_def imageCounts_def slice0_def Let_def)

lemma start_is: "(initializeState settings :: Row ScrapingState)\<lparr>currentUrl := buildStartUrl settings\<rparr> = startState"
  by (simp add: site_eval engine_eval)

lemma closed_cycle: "cycle U cfg (reachable closedView) st = Inl (''Target closed'', st)"
  by (simp add: cycle_def rootStep_def reachable_def closedView_def)

lemma three_failures:
  "run U settings [reachable closedView, reachable closedView, reachable closedView] =
     ([CycleBegins startState, Waits 1000,
       CycleBegins (startState\<lparr>errors := [failure ''Target closed'']\<rparr>), Waits 1000,
       CycleBegins (startState\<lparr>errors := [failure ''Target closed'', failure ''Target closed'']\<rparr>)],
      Some \<lparr>resultUrl = ''https://example.com'', resultData = [], metaPageCount = 1, metaItemCount = 0,
            metaErrors = [failure ''Target closed'', failure ''Target closed'', failure ''Target closed'']\<rparr>)"
  unfolding run_def start_is
  by (simp add: closed_cycle settings_def startState_def failure_def
        shouldContinue_def truthyNum_def handleError_def attemptsOf_def delayOf_def
        after_def buildResult_def Let_def)

lemma empty_cycle_advances:
  "visitedUrls st = {} \<Longrightarrow> extractedItems st = [] \<Longrightarrow>
   cycle U (settings\<lparr>maxPages := mp, retryAttempts := ra\<rparr>) (reachable (viewOf emptyFirst [])) st =
     Inr (st\<lparr>currentUrl := ''https://example.com/list'', currentPage := currentPage st + 1,
            visitedUrls := {''https://example.com/list?page=2''}\<rparr>, True)"
  by (simp add: site_eval engine_eval clean_nothing firstUnvisited.simps)

lemma empty_cycle_fails:
  "visitedUrls st = {} \<Longrightarrow> extractedItems st = [] \<Longrightarrow>
   cycle U (settings\<lparr>maxPages := mp, retryAttempts := ra\<rparr>) (unreachable (viewOf emptyFirst [])) st =
     Inl (''net::ERR_CONNECTION_RESET'', st\<lparr>currentUrl := ''https://example.com/list''\<rparr>)"
  by (simp add: site_eval engine_eval clean_nothing)

lemma empty_cycle_stays:
  "extractedItems st = [] \<Longrightarrow>
   cycle U (settings\<lparr>maxPages := mp, retryAttempts := ra\<rparr>) (reachable (viewOf emptyLast [])) st =
     Inr (st\<lparr>currentUrl := ''https://example.com/list''\<rparr>, False)"
  by (simp add: site_eval engine_eval clean_nothing)

lemma start_with:
  "(initializeState (settings\<lparr>maxPages := mp, retryAttempts := ra\<rparr>) :: Row ScrapingState)
     \<lparr>currentUrl := buildStartUrl (settings\<lparr>maxPages := mp, retryAttempts := ra\<rparr>)\<rparr> = startState"
  by (simp add: site_eval engine_eval)

lemma two_cycles_no_ceiling:
  "run U (settings\<lparr>maxPages := None, retryAttempts := Some 0\<rparr>)
       [reachable (viewOf emptyFirst []), reachable (viewOf emptyLast [])] =
     ([CycleBegins startState,
       CycleBegins (startState\<lparr>currentPage := 2, visitedUrls := {''https://example.com/list?page=2''}\<rparr>)],
      Some \<lparr>resultUrl = ''https://example.com'', resultData = [], metaPageCount = 2, metaItemCount = 0,
            metaErrors = []\<rparr>)"
  unfolding run_def start_with
  by (simp add: empty_cycle_advances empty_cycle_stays startState_def)
     (simp add: settings_def shouldContinue_def truthyNum_def after_def buildResult_def)

lemma retried_cycle:
  "run U (settings\<lparr>maxPages := Some 2, retryAttempts := None\<rparr>)
       [unreachable (viewOf emptyFirst []), reachable (viewOf emptyLast [])] =
     ([CycleBegins startState, Waits 1000,
       CycleBegins (startState\<lparr>errors := [failure ''net::ERR_CONNECTION_RESET'']\<rparr>)],
      Some \<lparr>resultUrl = ''https://example.com'', resultData = [], metaPageCount = 1, metaItemCount = 0,
            metaErrors = [failure ''net::ERR_CONNECTION_RESET'']\<rparr>)"
  unfolding run_def start_with
  by (simp add: empty_cycle_fails empty_cycle_stays startState_def handleError_def Let_def)
     (simp add: settings_def shouldContinue_def truthyNum_def after_def buildResult_def
        attemptsOf_def delayOf_def failure_def)

lemma one_cycle_of_two_pages:
  "run U (settings\<lparr>maxPages := Some 2, retryAttempts := None\<rparr>) [reachable (viewOf emptyFirst [])] =
     ([CycleBegins startState],
      Some \<lparr>resultUrl = ''https://example.com'', resultData = [], metaPageCount = 2, metaItemCount = 0,
            metaErrors = []\<rparr>)"
  unfolding run_def start_with
  by (simp add: empty_cycle_advances startState_def)
     (simp add: settings_def shouldContinue_def truthyNum_def after_def buildResult_def)

lemma events_of_list_all:
  assumes "list_all (eventOk cfg) tr"
  shows "(\<forall>s. CycleBegins s \<in> set tr \<longrightarrow> errors s = [] \<or> int (length (errors s)) < attemptsOf cfg)
       \<and> (\<forall>d. Waits d \<in> set tr \<longrightarrow> d = delayOf cfg)"
  using assms by (auto simp add: list_all_iff eventOk_def split: Event.splits)

lemma run_events: "list_all (eventOk cfg) (fst (run U cfg pages))"
  unfolding run_def by (rule loop_events) (simp add: initializeState_def)

lemma caught_error_step:
  assumes "shouldContinue cfg st" and "cycle U cfg page st = Inl (e, st1)"
  shows "errors (handleError e st1) =
           errors st @ [\<lparr>errorType = ''extraction'', message = e, errorUrl = currentUrl st1\<rparr>]"
    and "scrapingLoop U cfg (page # rest) st =
           (if attemptsOf cfg \<le> int (length (errors st)) + 1
            then ([CycleBegins st], Some (buildResult cfg (handleError e st1)))
            else after [CycleBegins st, Waits (delayOf cfg)]
                   (scrapingLoop U cfg rest (handleError e st1)))"
proof -
  from cycle_throws [OF assms(2)] have e1: "errors st1 = errors st" by (simp add: keeps_def)
  then show "errors (handleError e st1) =
           errors st @ [\<lparr>errorType = ''extraction'', message = e, errorUrl = currentUrl st1\<rparr>]"
    by (simp add: handleError_fields)
  have "int (length (errors (handleError e st1))) = int (length (errors st)) + 1"
    by (simp add: handleError_fields e1)
  with assms show "scrapingLoop U cfg (page # rest) st =
           (if attemptsOf cfg \<le> int (length (errors st)) + 1
            then ([CycleBegins st], Some (buildResult cfg (handleError e st1)))
            else after [CycleBegins st, Waits (delayOf cfg)]
                   (scrapingLoop U cfg rest (handleError e st1)))"
    by (simp add: Let_def)
qed

text \<open>
  C8, as the code has it. The ceiling is compared with the number of errors only in
  the \<open>catch\<close> branch. Whether or not the loop has ended, a cycle begins only in a
  state with no error recorded or with fewer errors than the ceiling (for a ceiling of
  at least 1: always with fewer errors than the ceiling); every delay waited is the
  configured one (1000 by default); the ceiling is 3 by default. When a cycle throws,
  \<open>handleError\<close> appends one error to the errors the cycle began with, and the loop
  returns at once when their number has reached the ceiling, and otherwise waits the
  configured delay and goes on with the next pass of the loop.
\<close>

theorem retry_ceiling:
  "(\<forall>s. CycleBegins s \<in> set (fst (run U cfg pages)) \<longrightarrow>
         errors s = [] \<or> int (length (errors s)) < attemptsOf cfg)
   \<and> (\<forall>s. 0 < attemptsOf cfg \<and> CycleBegins s \<in> set (fst (run U cfg pages)) \<longrightarrow>
         int (length (errors s)) < attemptsOf cfg)
   \<and> (\<forall>d. Waits d \<in> set (fst (run U cfg pages)) \<longrightarrow> d = delayOf cfg)
   \<and> (shouldContinue cfg st \<and> cycle U cfg page st = Inl (e, st1) \<longrightarrow>
        errors (handleError e st1) =
          errors st @ [\<lparr>errorType = ''extraction'', message = e, errorUrl = currentUrl st1\<rparr>]
      \<and> scrapingLoop U cfg (page # rest) st =
          (if attemptsOf cfg \<le> int (length (errors st)) + 1
           then ([CycleBegins st], Some (buildResult cfg (handleError e st1)))
           else after [CycleBegins st, Waits (delayOf cfg)]
                  (scrapingLoop U cfg rest (handleError e st1))))
   \<and> attemptsOf (cfg\<lparr>retryAttempts := None\<rparr>) = 3
   \<and> delayOf (cfg\<lparr>retryDelay := None\<rparr>) = 1000"
proof (intro conjI impI)
  note ev = events_of_list_all [OF run_events [of cfg U pages]]
  from ev show "\<forall>s. CycleBegins s \<in> set (fst (run U cfg pages)) \<longrightarrow>
         errors s = [] \<or> int (length (errors s)) < attemptsOf cfg"
    by blast
  from ev show "\<forall>s. 0 < attemptsOf cfg \<and> CycleBegins s \<in> set (fst (run U cfg pages)) \<longrightarrow>
         int (length (errors s)) < attemptsOf cfg"
    by fastforce
  from ev show "\<forall>d. Waits d \<in> set (fst (run U cfg pages)) \<longrightarrow> d = delayOf cfg" by blast
next
  assume a: "shouldContinue cfg st \<and> cycle U cfg page st = Inl (e, st1)"
  then show "errors (handleError e st1) =
          errors st @ [\<lparr>errorType = ''extraction'', message = e, errorUrl = currentUrl st1\<rparr>]"
    using caught_error_step(1) by blast
  from a show "scrapingLoop U cfg (page # rest) st =
          (if attemptsOf cfg \<le> int (length (errors st)) + 1
           then ([CycleBegins st], Some (buildResult cfg (handleError e st1)))
           else after [CycleBegins st, Waits (delayOf cfg)]
                  (scrapingLoop U cfg rest (handleError e st1)))"
    using caught_error_step(2) by blast
next
  show "attemptsOf (cfg\<lparr>retryAttempts := None\<rparr>) = 3" by (simp add: attemptsOf_def)
  show "delayOf (cfg\<lparr>retryDelay := None\<rparr>) = 1000" by (simp add: delayOf_def)
qed

theorem retry_ceiling_witness:
  "map errorsAtBegin
     (fst (run referenceURL settings [reachable closedView, reachable closedView, reachable closedView]))
     = [Some 0, None, Some 1, None, Some 2]
   \<and> list_all (\<lambda>ev. case ev of CycleBegins s \<Rightarrow> int (length (errors s)) < 3 | Waits d \<Rightarrow> d = 1000)
       (fst (run referenceURL settings [reachable closedView, reachable closedView, reachable closedView]))
   \<and> map_option (\<lambda>res. length (metaErrors res))
       (snd (run referenceURL settings [reachable closedView, reachable closedView, reachable closedView])) = Some 3
   \<and> errors (handleError ''Target closed'' startState) = [failure ''Target closed'']"
proof -
  let ?pages = "[reachable closedView, reachable closedView, reachable closedView]"
  let ?tr = "[CycleBegins startState, Waits 1000,
            CycleBegins (startState\<lparr>errors := [failure ''Target closed'']\<rparr>), Waits 1000,
            CycleBegins (startState\<lparr>errors := [failure ''Target closed'', failure ''Target closed'']\<rparr>)]"
  note t = retry_ceiling [of referenceURL settings ?pages startState "reachable closedView"
      "''Target closed''" startState "[]"]
  have tr: "fst (run referenceURL settings ?pages) = ?tr" by (simp add: three_failures)
  have att: "attemptsOf settings = 3" and del: "delayOf settings = 1000"
    by (simp_all add: attemptsOf_def delayOf_def settings_def)
  have sc: "shouldContinue settings startState \<and>
      cycle referenceURL settings (reachable closedView) startState = Inl (''Target closed'', startState)"
    by (simp add: closed_cycle shouldContinue_def truthyNum_def settings_def)
  note t2 = t [THEN conjunct2, THEN conjunct2, THEN conjunct2, THEN conjunct1, THEN mp, OF sc,
      THEN conjunct1]
  have begins: "\<forall>s. CycleBegins s \<in> set ?tr \<longrightarrow> int (length (errors s)) < 3"
    using t [THEN conjunct2, THEN conjunct1] unfolding tr att by simp
  have waits: "\<forall>d. Waits d \<in> set ?tr \<longrightarrow> d = 1000"
    using t [THEN conjunct2, THEN conjunct2, THEN conjunct1] unfolding tr del by simp
  have "list_all (\<lambda>ev. case ev of CycleBegins s \<Rightarrow> int (length (errors s)) < 3 | Waits d \<Rightarrow> d = 1000) ?tr"
    unfolding list_all_iff using begins waits by (auto split: Event.splits)
  moreover have "errors (handleError ''Target closed'' startState) = [failure ''Target closed'']"
    using t2 by (simp add: startState_def failure_def)
  ultimately show ?thesis
    by (simp add: three_failures errorsAtBegin_def startState_def)
qed

theorem retry_ceiling_zero_counterexample:
  "attemptsOf (settings\<lparr>maxPages := None, retryAttempts := Some 0\<rparr>) = 0
   \<and> map errorsAtBegin
       (fst (run referenceURL (settings\<lparr>maxPages := None, retryAttempts := Some 0\<rparr>)
                 [reachable (viewOf emptyFirst []), reachable (viewOf emptyLast [])]))
     = [Some 0, Some 0]"
  by (simp add: two_cycles_no_ceiling errorsAtBegin_def startState_def attemptsOf_def)

lemma item_wellFormed: "isDigit d \<Longrightarrow> wellFormed (itemAddress d)"
  by (auto simp add: itemAddress_def wellFormed_def validHost_def validPath_def hostChar_def pathChar_def
      isAlnum_def isAlpha_def isDigit_def toLowerCase_def lowerChar_def upperLetters_def lowerLetters_def splitOn.simps)

lemma item_parsed:
  assumes "isDigit d"
  shows "new_URL (URL_toString (itemAddress d)) ''https://example.com/list'' = Some (itemAddress d)"
  using parse_news item_wellFormed [OF assms] by (rule new_URL_toString)

lemma item_absolute:
  "isDigit d \<Longrightarrow>
   toAbsoluteUrl referenceURL ''https://example.com/list'' (URL_toString (itemAddress d)) = URL_toString (itemAddress d)"
  by (simp add: toAbsoluteUrl_def ref_ops item_parsed)

lemma item_canonical:
  assumes "isDigit d"
  shows "canonicalForDedupe referenceURL ''https://example.com/list'' (URL_toString (itemAddress d))
           = URL_toString (itemAddress d)"
proof -
  have "keptPairs (itemAddress d) = []"
    by (simp add: keptPairs_def searchParams_def parsePairs_def itemAddress_def orEmpty_def)
  then show ?thesis
    unfolding canonicalForDedupe_parsed [OF item_parsed [OF assms]]
    by (simp add: writeBack_def itemAddress_def)
qed

lemma item_address_inj: "URL_toString (itemAddress d) = URL_toString (itemAddress d') \<longleftrightarrow> d = d'"
  by (simp add: URL_toString_def itemAddress_def)

lemma item_address_nonempty: "URL_toString (itemAddress d) \<noteq> []"
  by (simp add: URL_toString_def itemAddress_def)

lemma item_clean: "isDigit d \<Longrightarrow> cleanRow referenceURL ''https://example.com/list'' (itemRow d) = itemRow d"
  by (auto simp add: cleanRow_def itemRow_def row_def truthy_def orEmpty_def item_address_nonempty
      item_absolute trim_def isSpace_def isDigit_def cleanImageUrl_def promoteFromTags_def Let_def)

lemma item_content: "hasContent (itemRow d)"
  by (simp add: hasContent_def itemRow_def row_def truthy_def)

lemma item_key:
  "isDigit d \<Longrightarrow> dedupKey referenceURL ''https://example.com/list'' (itemRow d) = URL_toString (itemAddress d)"
  by (simp add: dedupKey_def itemRow_def row_def truthy_def orEmpty_def item_address_nonempty
      item_canonical Let_def)

lemma item_href:
  "itemHref (itemRow d) = Some (URL_toString (itemAddress d))" "itemImage (itemRow d) = None"
  by (simp_all add: itemRow_def row_def)

lemma ten_rows_clean: "map (cleanRow referenceURL ''https://example.com/list'') tenRows = tenRows"
  by (simp add: tenRows_def item_clean isDigit_def)

lemma ten_rows_content: "filter hasContent tenRows = tenRows"
  by (simp add: tenRows_def item_content)

lemma ten_rows_distinct:
  "dedupeFilter referenceURL ''https://example.com/list'' [] [] tenRows = tenRows"
  by (simp add: tenRows_def item_key item_href item_canonical item_address_inj item_address_nonempty
      isDigit_def truthy_def orEmpty_def Let_def)

lemma ten_cleaned:
  assumes "currentUrl st = ''https://example.com/list''" and "extractedItems st = []"
  shows "cleanAndDedupeResults referenceURL st tenRows 5 = map itemRow ''01234''"
proof -
  have "slice0 5 tenRows = map itemRow ''01234''"
    by (simp add: slice0_def tenRows_def)
  moreover have "removeCommonImages (map itemRow ''01234'') = map itemRow ''01234''"
    by (simp add: removeCommonImages_def imageCounts_def item_href truthy_def)
  ultimately show ?thesis
    by (simp add: cleanAndDedupeResults_def assms existingGlobal_def ten_rows_clean ten_rows_content
        ten_rows_distinct Let_def)
qed

lemma ten_extracted:
  "extractItemsFromSnapshot referenceURL (settings\<lparr>maxItems := Some 5\<rparr>) tenListed (viewOf tenListed tenRows) startState
     = Inr (map itemRow ''01234'')"
proof -
  have c: "cleanAndDedupeResults referenceURL startState tenRows 5 = map itemRow ''01234''"
    by (rule ten_cleaned) (simp_all add: startState_def)
  have n: "maxNeededOf (settings\<lparr>maxItems := Some 5\<rparr>) startState = 5"
    by (simp add: maxNeededOf_def settings_def startState_def)
  show ?thesis
    unfolding extractItemsFromSnapshot_def n
    by (simp add: c Let_def extractFromSchema_def extractFromSnapshot_def settings_def tenListed_def
        snapshotAt_def listAt_def refAt_def viewOf_def)
qed

lemma ten_cycle:
  "cycle referenceURL (settings\<lparr>maxItems := Some 5\<rparr>) (reachable (viewOf tenListed tenRows)) startState =
     Inr (startState\<lparr>extractedItems :=
            map (\<lambda>d. \<lparr>data = itemRow d, foundAt = ''https://example.com/list''\<rparr>) ''01234''\<rparr>, False)"
proof -
  have st: "startState\<lparr>currentUrl := ''https://example.com/list''\<rparr> = startState"
    "extractedItems startState = []" "currentUrl startState = ''https://example.com/list''"
    by (simp_all add: startState_def)
  have f: "followLinks (settings\<lparr>maxItems := Some 5\<rparr>) = False"
    "schemaPagination (settings\<lparr>maxItems := Some 5\<rparr>) = False"
    by (simp_all add: settings_def)
  have u: "url (compact tenListed) = ''https://example.com/list''"
    "pagination (compact tenListed) = []"
    by (simp_all add: tenListed_def snapshotAt_def)
  have v: "viewSnapshot (viewOf tenListed tenRows) = Inr tenListed"
    "viewDump (viewOf tenListed tenRows) = None"
    by (simp_all add: viewOf_def)
  show ?thesis
    unfolding cycle_def rootStep_def
    by (simp add: reachable_def v u st f ten_extracted Let_def pushItems_def
        paginate_def chooseNextPageHref_def)
qed

lemma five_of_ten:
  "run referenceURL (settings\<lparr>maxItems := Some 5\<rparr>) [reachable (viewOf tenListed tenRows)] =
     ([CycleBegins startState],
      Some \<lparr>resultUrl = ''https://example.com'', resultData = map itemRow ''01234'',
            metaPageCount = 1, metaItemCount = 5, metaErrors = []\<rparr>)"
proof -
  have s: "(initializeState (settings\<lparr>maxItems := Some 5\<rparr>) :: Row ScrapingState)
     \<lparr>currentUrl := buildStartUrl (settings\<lparr>maxItems := Some 5\<rparr>)\<rparr> = startState"
    by (simp add: site_eval engine_eval)
  have c: "shouldContinue (settings\<lparr>maxItems := Some 5\<rparr>) startState"
    by (simp add: shouldContinue_def truthyNum_def settings_def startState_def)
  show ?thesis
    unfolding run_def s
    by (simp add: c ten_cycle) (simp add: buildResult_def startState_def settings_def)
qed

text \<open>
  C1. With a positive \<open>maxItems = m\<close> the result of a run holds at most \<open>m\<close> records.
  An extraction step returns at most as many records as the capacity left, which is
  \<open>maxItems\<close> (the largest safe integer when there is none) less the number of records
  extracted already, and 0 when that is negative; with no capacity left it returns the
  empty list without evaluating any tier. A run with \<open>maxItems = 5\<close> on a page whose
  list holds ten records with titles and links of their own returns five records.
\<close>

theorem maxItems_cap:
  "(maxItems cfg = Some m \<and> 0 < m \<and> snd (run U cfg pages) = Some res
       \<longrightarrow> int (length (resultData res)) \<le> m)
   \<and> (extractItemsFromSnapshot U cfg snap view st = Inr items \<longrightarrow>
        int (length items)
          \<le> max ((case maxItems cfg of None \<Rightarrow> MAX_SAFE_INTEGER | Some m' \<Rightarrow> m')
                   - int (length (extractedItems st))) 0)
   \<and> (maxItems cfg = Some m \<and> m \<le> int (length (extractedItems st)) \<longrightarrow>
        extractItemsFromSnapshot U cfg snap view st = Inr [])
   \<and> length tenRows = 10
   \<and> (\<exists>res'. snd (run referenceURL (settings\<lparr>maxItems := Some 5\<rparr>)
                         [reachable (viewOf tenListed tenRows)])
                   = Some res' \<and> length (resultData res') = 5)"
proof (intro conjI impI)
  assume a: "maxItems cfg = Some m \<and> 0 < m \<and> snd (run U cfg pages) = Some res"
  then show "int (length (resultData res)) \<le> m"
    by (intro loop_items [of cfg m "(initializeState cfg)\<lparr>currentUrl := buildStartUrl cfg\<rparr>" U pages res])
       (simp_all add: run_def initializeState_def)
next
  assume "extractItemsFromSnapshot U cfg snap view st = Inr items"
  from extract_length [OF this]
  show "int (length items)
          \<le> max ((case maxItems cfg of None \<Rightarrow> MAX_SAFE_INTEGER | Some m' \<Rightarrow> m')
                   - int (length (extractedItems st))) 0"
    by (simp add: maxNeededOf_def)
next
  assume "maxItems cfg = Some m \<and> m \<le> int (length (extractedItems st))"
  then have "maxNeededOf cfg st \<le> 0" by (simp add: maxNeededOf_def)
  then show "extractItemsFromSnapshot U cfg snap view st = Inr []" by (rule extract_zero)
next
  show "length tenRows = 10" by (simp add: tenRows_def)
  show "\<exists>res'. snd (run referenceURL (settings\<lparr>maxItems := Some 5\<rparr>)
                         [reachable (viewOf tenListed tenRows)])
                   = Some res' \<and> length (resultData res') = 5"
    by (simp add: five_of_ten)
qed

theorem maxItems_cap_witness:
  "int (length (resultData (the (snd (run referenceURL (settings\<lparr>maxItems := Some 5\<rparr>)
                                          [reachable (viewOf tenListed tenRows)]))))) \<le> 5
   \<and> int (length (map itemRow ''01234'')) \<le> max (5 - int (length ([] :: Row ExtractedItem list))) 0
   \<and> extractItemsFromSnapshot referenceURL (settings\<lparr>maxItems := Some 5\<rparr>) tenListed (viewOf tenListed tenRows)
        (startState\<lparr>extractedItems :=
            map (\<lambda>d. \<lparr>data = itemRow d, foundAt = ''https://example.com/list''\<rparr>) ''01234''\<rparr>) = Inr []"
proof -
  let ?cfg = "settings\<lparr>maxItems := Some 5\<rparr>"
  let ?res = "\<lparr>resultUrl = ''https://example.com'', resultData = map itemRow ''01234'',
            metaPageCount = 1, metaItemCount = 5, metaErrors = []\<rparr>"
  let ?full = "startState\<lparr>extractedItems :=
            map (\<lambda>d. \<lparr>data = itemRow d, foundAt = ''https://example.com/list''\<rparr>) ''01234''\<rparr>"
  have m: "maxItems ?cfg = Some 5" by simp
  note t = maxItems_cap [of ?cfg 5 referenceURL "[reachable (viewOf tenListed tenRows)]" ?res
      tenListed "viewOf tenListed tenRows" _ _]
  have h1: "maxItems ?cfg = Some 5 \<and> (0::int) < 5 \<and>
      snd (run referenceURL ?cfg [reachable (viewOf tenListed tenRows)]) = Some ?res"
    using five_of_ten by simp
  note x = ten_extracted
  have h3: "maxItems ?cfg = Some 5 \<and> 5 \<le> int (length (extractedItems ?full))"
    by simp
  note a = t [of startState "map itemRow ''01234''", THEN conjunct1, THEN mp, OF h1]
  note b = t [of startState "map itemRow ''01234''", THEN conjunct2, THEN conjunct1, THEN mp, OF x]
  note c = t [of ?full "[]", THEN conjunct2, THEN conjunct2, THEN conjunct1, THEN mp, OF h3]
  from a b c show ?thesis
    by (simp add: five_of_ten startState_def)
qed

lemma dedupeFilter_keys:
  "distinct (map (dedupKey U cur) (dedupeFilter U cur glob seen rows))
   \<and> set (map (dedupKey U cur) (dedupeFilter U cur glob seen rows)) \<inter> set seen = {}"
proof (induction rows arbitrary: seen)
  case Nil
  show ?case by simp
next
  case (Cons r rows)
  show ?case
    using Cons.IH [of seen] Cons.IH [of "dedupKey U cur r # seen"]
    by (auto simp add: Let_def)
qed

lemma dedupeFilter_global:
  "r \<in> set (dedupeFilter U cur glob seen rows) \<Longrightarrow> truthy (itemHref r) \<Longrightarrow>
   canonicalForDedupe U cur (orEmpty (itemHref r)) \<notin> set glob"
proof (induction rows arbitrary: seen)
  case Nil
  then show ?case by simp
next
  case (Cons a rows)
  then show ?case by (auto simp add: Let_def split: if_splits)
qed

lemma dedupeFilter_nonempty:
  "r \<in> set (dedupeFilter U cur glob seen rows) \<Longrightarrow> dedupKey U cur r \<noteq> []"
proof (induction rows arbitrary: seen)
  case Nil
  then show ?case by simp
next
  case (Cons a rows)
  then show ?case by (auto simp add: Let_def split: if_splits)
qed

lemma dedupKey_image: "dedupKey U cur (r\<lparr>itemImage := i\<rparr>) = dedupKey U cur r"
  by (simp add: dedupKey_def Let_def)

lemma removeCommonImages_keys:
  "map (dedupKey U cur) (removeCommonImages rs) = map (dedupKey U cur) rs"
  by (simp add: removeCommonImages_def dedupKey_image split: option.splits)

lemma removeCommonImages_hrefs:
  "map itemHref (removeCommonImages rs) = map itemHref rs"
  by (simp add: removeCommonImages_def split: option.splits)

lemma slice0_take: "\<exists>k. slice0 n xs = take k xs"
  by (auto simp add: slice0_def)

lemma cleaned_distinct:
  "distinct (map (dedupKey U (currentUrl st)) (cleanAndDedupeResults U st rows n))"
proof -
  let ?f = "dedupeFilter U (currentUrl st) (existingGlobal U st) []
              (filter hasContent (map (cleanRow U (currentUrl st)) rows))"
  obtain k where k: "slice0 n ?f = take k ?f" using slice0_take by blast
  have "distinct (map (dedupKey U (currentUrl st)) (take k ?f))"
    unfolding take_map [symmetric]
    using dedupeFilter_keys [of U "currentUrl st" "existingGlobal U st" "[]"]
    by (intro distinct_take) blast
  then show ?thesis
    by (simp add: cleanAndDedupeResults_def Let_def removeCommonImages_keys k)
qed

lemma cleaned_member:
  assumes "r \<in> set (cleanAndDedupeResults U st rows n)"
  shows "\<exists>r' \<in> set (dedupeFilter U (currentUrl st) (existingGlobal U st) []
              (filter hasContent (map (cleanRow U (currentUrl st)) rows))).
           itemHref r' = itemHref r \<and> dedupKey U (currentUrl st) r' = dedupKey U (currentUrl st) r"
proof -
  let ?f = "dedupeFilter U (currentUrl st) (existingGlobal U st) []
              (filter hasContent (map (cleanRow U (currentUrl st)) rows))"
  obtain k where k: "slice0 n ?f = take k ?f" using slice0_take by blast
  from assms have "r \<in> set (removeCommonImages (take k ?f))"
    by (simp add: cleanAndDedupeResults_def Let_def k)
  then obtain r' where "r' \<in> set (take k ?f)" "r = r' \<or> r = r'\<lparr>itemImage := None\<rparr>"
    by (auto simp add: removeCommonImages_def split: option.splits if_splits)
  then show ?thesis
    using set_take_subset [of k ?f] by (auto simp add: dedupKey_image)
qed

lemma cleaned_global:
  assumes "r \<in> set (cleanAndDedupeResults U st rows n)" and "truthy (itemHref r)"
  shows "canonicalForDedupe U (currentUrl st) (orEmpty (itemHref r)) \<notin> set (existingGlobal U st)"
  using cleaned_member [OF assms(1)] assms(2) dedupeFilter_global by metis

lemma cleaned_nonempty:
  assumes "r \<in> set (cleanAndDedupeResults U st rows n)"
  shows "dedupKey U (currentUrl st) r \<noteq> []"
  using cleaned_member [OF assms] dedupeFilter_nonempty by metis

lemma story_clean: "cleanRow U cur story = story"
  by (simp add: cleanRow_def story_def row_def truthy_def orEmpty_def trim_def isSpace_def
      cleanImageUrl_def promoteFromTags_def Let_def)

lemma story_fields:
  "hasContent story" "itemHref story = None" "itemImage story = None"
  "dedupKey U cur story = ''Breaking story|Details inside''"
  by (simp_all add: story_def row_def hasContent_def dedupKey_def truthy_def orEmpty_def
      templateString_def Let_def)

lemma story_kept:
  assumes "1 \<le> n"
  shows "cleanAndDedupeResults U st [story] n = [story]"
proof -
  have "slice0 n [story] = [story]" using assms by (simp add: slice0_def)
  moreover have "removeCommonImages [story] = [story]"
    by (simp add: removeCommonImages_def imageCounts_def story_fields truthy_def)
  ultimately show ?thesis
    by (simp add: cleanAndDedupeResults_def story_clean story_fields truthy_def Let_def)
qed

lemma story_extracted:
  assumes "maxItems cfg = None" and "schemaSelectors cfg = False"
    and "lists (compact snap) = [listAt ''#results'']" and "length (extractedItems st) \<le> 1"
  shows "extractItemsFromSnapshot U cfg snap (viewOf snap' [story]) st = Inr [story]"
proof -
  have n: "1 \<le> maxNeededOf cfg st"
    using assms(1,4) by (simp add: maxNeededOf_def MAX_SAFE_INTEGER_def)
  then have z: "\<not> maxNeededOf cfg st \<le> 0" by simp
  show ?thesis
    unfolding extractItemsFromSnapshot_def
    by (simp add: z Let_def extractFromSchema_def extractFromSnapshot_def assms(1-3) story_kept [OF n]
        listAt_def refAt_def viewOf_def)
qed

lemma story_twice:
  "run U settings [reachable (viewOf storyFirst [story]), reachable (viewOf storySecond [story])] =
     ([CycleBegins startState,
       CycleBegins (startState\<lparr>extractedItems := [\<lparr>data = story, foundAt = ''https://example.com/list''\<rparr>],
                               currentPage := 2,
                               visitedUrls := {''https://example.com/list?page=2''}\<rparr>)],
      Some \<lparr>resultUrl = ''https://example.com'', resultData = [story, story],
            metaPageCount = 2, metaItemCount = 2, metaErrors = []\<rparr>)"
proof -
  have cfg: "maxItems settings = None" "schemaSelectors settings = False"
    "followLinks settings = False" "schemaPagination settings = False" "maxPages settings = None"
    "baseUrl settings = ''https://example.com''"
    by (simp_all add: settings_def)
  have s1: "lists (compact storyFirst) = [listAt ''#results'']"
    "url (compact storyFirst) = ''https://example.com/list''"
    "pagination (compact storyFirst) = [nextLink]"
    by (simp_all add: storyFirst_def snapshotAt_def)
  have s2: "lists (compact storySecond) = [listAt ''#results'']"
    "url (compact storySecond) = ''https://example.com/list?page=2''"
    "pagination (compact storySecond) = []"
    by (simp_all add: storySecond_def snapshotAt_def)
  have v: "viewSnapshot (viewOf snap [story]) = Inr snap" "viewDump (viewOf snap [story]) = None" for snap
    by (simp_all add: viewOf_def)
  have nl: "href nextLink = Some ''https://example.com/list?page=2''"
    by (simp add: nextLink_def refAt_def)
  let ?st1 = "startState\<lparr>extractedItems := [\<lparr>data = story, foundAt = ''https://example.com/list''\<rparr>],
                         currentPage := 2, visitedUrls := {''https://example.com/list?page=2''}\<rparr>"
  have c1: "cycle U settings (reachable (viewOf storyFirst [story])) startState = Inr (?st1, True)"
    unfolding cycle_def rootStep_def
    by (simp add: v s1 cfg story_extracted [OF cfg(1,2) s1(1)] Let_def reachable_def pushItems_def
        paginate_def chooseNextPageHref_def nl truthy_def orEmpty_def isVisited_def markVisited_def
        startState_def)
  have c2: "cycle U settings (reachable (viewOf storySecond [story])) ?st1 =
      Inr (?st1\<lparr>currentUrl := ''https://example.com/list?page=2'',
                 extractedItems := [\<lparr>data = story, foundAt = ''https://example.com/list''\<rparr>,
                                    \<lparr>data = story, foundAt = ''https://example.com/list?page=2''\<rparr>]\<rparr>, False)"
    unfolding cycle_def rootStep_def
    by (simp add: v s2 cfg story_extracted [OF cfg(1,2) s2(1)] Let_def reachable_def pushItems_def
        paginate_def chooseNextPageHref_def startState_def)
  have go: "shouldContinue settings st" for st :: "Row ScrapingState"
    by (simp add: shouldContinue_def truthyNum_def cfg)
  show ?thesis
    unfolding run_def start_is
    by (simp add: go c1 c2 after_def buildResult_def cfg) (simp add: startState_def)
qed

lemma item_not_story:
  "URL_toString (itemAddress d) \<noteq> ''Breaking story|Details inside''"
  "''Breaking story|Details inside'' \<noteq> URL_toString (itemAddress d)"
  by (simp_all add: URL_toString_def itemAddress_def)

lemma one_extracted_global:
  "existingGlobal referenceURL oneExtracted = [URL_toString (itemAddress CHR ''0'')]"
  by (simp add: existingGlobal_def oneExtracted_def startState_def hrefOrUrl_def item_href truthy_def
      orEmpty_def item_address_nonempty item_canonical isDigit_def)

lemma mixed_batch:
  "cleanAndDedupeResults referenceURL oneExtracted
     [itemRow CHR ''0'', itemRow CHR ''1'', itemRow CHR ''1'', story, story] 10
     = [itemRow CHR ''1'', story]"
proof -
  have cur: "currentUrl oneExtracted = ''https://example.com/list''"
    by (simp add: oneExtracted_def startState_def)
  have "removeCommonImages [itemRow CHR ''1'', story] = [itemRow CHR ''1'', story]"
    by (simp add: removeCommonImages_def imageCounts_def story_fields item_href truthy_def)
  then show ?thesis
    by (simp add: cleanAndDedupeResults_def cur one_extracted_global item_clean story_clean
        item_content story_fields item_key item_href item_canonical item_address_inj
        item_address_nonempty item_not_story isDigit_def truthy_def orEmpty_def slice0_def Let_def)
qed

text \<open>
  C3, as the code has it. The key of a cleaned record is its canonical href and,
  without an href (or with one whose canonical form is empty), its title and snippet
  as the text \<open>title|snippet\<close>. In the batch one call of \<open>cleanAndDedupeResults\<close>
  returns no two records have the same key and no key is empty. The records extracted
  before are consulted through \<open>existingGlobal\<close>, the set of the canonical forms, where
  not empty, of their hrefs (or urls), and only for a record that has an href: no
  returned record with an href has its canonical href in that set. A record without
  an href is compared with its own batch only.
\<close>

theorem dedupe_batch_and_global:
  "distinct (map (dedupKey U (currentUrl st)) (cleanAndDedupeResults U st rows n))
   \<and> (\<forall>r \<in> set (cleanAndDedupeResults U st rows n).
        dedupKey U (currentUrl st) r \<noteq> []
        \<and> (truthy (itemHref r) \<longrightarrow>
             canonicalForDedupe U (currentUrl st) (orEmpty (itemHref r)) \<notin> set (existingGlobal U st)))
   \<and> set (existingGlobal U st) =
        {k. k \<noteq> [] \<and> (\<exists>x \<in> set (extractedItems st).
                          k = canonicalForDedupe U (currentUrl st) (hrefOrUrl (data x)))}
   \<and> (truthy (itemHref r) \<and> canonicalForDedupe U cur (orEmpty (itemHref r)) \<noteq> [] \<longrightarrow>
        dedupKey U cur r = canonicalForDedupe U cur (orEmpty (itemHref r)))
   \<and> (\<not> truthy (itemHref r) \<longrightarrow>
        dedupKey U cur r = templateString (itemTitle r) @ ''|''
                          @ (if truthy (itemSnippet r) then orEmpty (itemSnippet r) else []))"
proof (intro conjI ballI impI)
  show "distinct (map (dedupKey U (currentUrl st)) (cleanAndDedupeResults U st rows n))"
    by (rule cleaned_distinct)
next
  fix r' assume "r' \<in> set (cleanAndDedupeResults U st rows n)"
  then show "dedupKey U (currentUrl st) r' \<noteq> []" by (rule cleaned_nonempty)
next
  fix r' assume "r' \<in> set (cleanAndDedupeResults U st rows n)" and "truthy (itemHref r')"
  then show "canonicalForDedupe U (currentUrl st) (orEmpty (itemHref r')) \<notin> set (existingGlobal U st)"
    by (rule cleaned_global)
next
  show "set (existingGlobal U st) =
        {k. k \<noteq> [] \<and> (\<exists>x \<in> set (extractedItems st).
                          k = canonicalForDedupe U (currentUrl st) (hrefOrUrl (data x)))}"
    by (auto simp add: existingGlobal_def)
next
  assume "truthy (itemHref r) \<and> canonicalForDedupe U cur (orEmpty (itemHref r)) \<noteq> []"
  then show "dedupKey U cur r = canonicalForDedupe U cur (orEmpty (itemHref r))"
    by (simp add: dedupKey_def Let_def)
next
  assume "\<not> truthy (itemHref r)"
  then show "dedupKey U cur r = templateString (itemTitle r) @ ''|''
                          @ (if truthy (itemSnippet r) then orEmpty (itemSnippet r) else [])"
    by (simp add: dedupKey_def Let_def)
qed

theorem dedupe_batch_and_global_witness:
  "cleanAndDedupeResults referenceURL oneExtracted
     [itemRow CHR ''0'', itemRow CHR ''1'', itemRow CHR ''1'', story, story] 10
     = [itemRow CHR ''1'', story]
   \<and> existingGlobal referenceURL oneExtracted = [''https://example.com/item/0'']
   \<and> map (dedupKey referenceURL ''https://example.com/list'') [itemRow CHR ''1'', story]
       = [''https://example.com/item/1'', ''Breaking story|Details inside'']
   \<and> canonicalForDedupe referenceURL ''https://example.com/list'' ''https://example.com/item/1''
       \<notin> set (existingGlobal referenceURL oneExtracted)"
proof -
  let ?rows = "[itemRow CHR ''0'', itemRow CHR ''1'', itemRow CHR ''1'', story, story]"
  have cur: "currentUrl oneExtracted = ''https://example.com/list''"
    by (simp add: oneExtracted_def startState_def)
  note t = dedupe_batch_and_global [of referenceURL oneExtracted ?rows 10 "itemRow CHR ''1''" "''https://example.com/list''"]
  have mem: "itemRow CHR ''1'' \<in> set (cleanAndDedupeResults referenceURL oneExtracted ?rows 10)"
    by (simp add: mixed_batch)
  have tr: "truthy (itemHref (itemRow CHR ''1''))"
    by (simp add: item_href truthy_def item_address_nonempty)
  note g = t [THEN conjunct2, THEN conjunct1, THEN bspec, OF mem, THEN conjunct2, THEN mp, OF tr]
  have addr: "URL_toString (itemAddress d) = ''https://example.com/item/'' @ [d]" for d
    by (simp add: URL_toString_def itemAddress_def)
  have key: "truthy (itemHref (itemRow CHR ''1'')) \<and>
      canonicalForDedupe referenceURL ''https://example.com/list'' (orEmpty (itemHref (itemRow CHR ''1''))) \<noteq> []"
    by (simp add: item_href truthy_def orEmpty_def item_address_nonempty item_canonical isDigit_def)
  note k = t [THEN conjunct2, THEN conjunct2, THEN conjunct2, THEN conjunct1, THEN mp, OF key]
  have can: "canonicalForDedupe referenceURL ''https://example.com/list'' ''https://example.com/item/1''
               = ''https://example.com/item/1''"
    using item_canonical [of "CHR ''1''"] by (simp add: addr isDigit_def)
  from g k show ?thesis
    by (simp add: mixed_batch one_extracted_global cur item_href orEmpty_def can story_fields addr)
qed

theorem dedupe_without_href_counterexample:
  "map_option resultData
     (snd (run referenceURL settings [reachable (viewOf storyFirst [story]), reachable (viewOf storySecond [story])]))
     = Some [story, story]
   \<and> itemHref story = None
   \<and> dedupKey referenceURL ''https://example.com/list'' story = dedupKey referenceURL ''https://example.com/list?page=2'' story"
  by (simp add: story_twice story_fields)

lemma logo_clean:
  "cleanImageUrl U (Some logoA) ''https://example.com/list'' = Some logoA"
  "cleanImageUrl U (Some logoB) ''https://example.com/list'' = Some logoB"
  by (simp_all add: cleanImageUrl_def logoA_def logoB_def truthy_def orEmpty_def trim_def isSpace_def
      isDataUrl_def isSvg.simps fixDoubledAbsolute_def indexFrom1_def absolutize_def isHttpUrl_def
      isHttpScheme_def toLowerCase_def lowerChar_def upperLetters_def lowerLetters_def Let_def)

lemma logo_differ: "logoA \<noteq> logoB" "logoB \<noteq> logoA" "logoA \<noteq> []" "logoB \<noteq> []"
  by (simp_all add: logoA_def logoB_def)

lemma pictured_fields:
  "itemImage (pictured img d) = Some img" "itemHref (pictured img d) = None"
  "itemTitle (pictured img d) = Some (''Item '' @ [d])" "itemSnippet (pictured img d) = None"
  "itemTags (pictured img d) = None" "hasContent (pictured img d)"
  by (simp_all add: pictured_def row_def hasContent_def truthy_def)

lemma pictured_clean:
  assumes "isDigit d" and "cleanImageUrl U (Some img) cur = Some img"
  shows "cleanRow U cur (pictured img d) = pictured img d"
  using assms
  by (auto simp add: cleanRow_def pictured_def row_def truthy_def orEmpty_def trim_def isSpace_def
      isDigit_def Let_def)

lemma pictured_key: "dedupKey U cur (pictured img d) = ''Item '' @ [d] @ ''|''"
  by (simp add: dedupKey_def pictured_fields truthy_def templateString_def Let_def)

lemma two_logos_clean: "map (cleanRow U ''https://example.com/list'') twoLogos = twoLogos"
  by (simp add: twoLogos_def pictured_clean logo_clean isDigit_def)

lemma two_logos_distinct: "dedupeFilter U cur glob [] twoLogos = twoLogos"
  by (simp add: twoLogos_def pictured_key pictured_fields truthy_def Let_def)

lemma two_logos_counts: "imageCounts twoLogos = [(logoA, 5), (logoB, 5)]"
  by (simp add: imageCounts_def twoLogos_def pictured_fields truthy_def orEmpty_def logo_differ)

lemma two_logos_removed:
  "removeCommonImages twoLogos =
     map (\<lambda>d. row (Some (''Item '' @ [d])) None None None) ''01234'' @ map (pictured logoB) ''56789''"
  unfolding removeCommonImages_def two_logos_counts
  by (simp add: twoLogos_def pictured_fields logo_differ) (simp add: pictured_def row_def)

text \<open>
  C7, at a batch in which two images recur. Ten records without links and with titles
  of their own carry the image \<open>logoA\<close> (the first five) and \<open>logoB\<close> (the last five).
  Cleaning and deduplication keep all ten as they are, so each image occurs five times
  in the cleaned batch. \<open>removeCommonImages\<close> looks up one entry of its counts, the
  first that has reached 5, and clears that image only: the five records with \<open>logoB\<close>
  are returned with their image.
\<close>

theorem removeCommonImages_first_only:
  "imageCounts (slice0 10 (dedupeFilter referenceURL ''https://example.com/list'' (existingGlobal referenceURL startState) []
                   (filter hasContent (map (cleanRow referenceURL ''https://example.com/list'') twoLogos))))
     = [(logoA, 5), (logoB, 5)]
   \<and> cleanAndDedupeResults referenceURL startState twoLogos 10
     = map (\<lambda>d. row (Some (''Item '' @ [d])) None None None) ''01234'' @ map (pictured logoB) ''56789''
   \<and> length (filter (\<lambda>r. itemImage r = Some logoB) (cleanAndDedupeResults referenceURL startState twoLogos 10)) = 5"
proof -
  have cur: "currentUrl startState = ''https://example.com/list''" by (simp add: startState_def)
  have content: "filter hasContent twoLogos = twoLogos"
    by (simp add: twoLogos_def pictured_fields)
  have len: "slice0 10 twoLogos = twoLogos" by (simp add: slice0_def twoLogos_def)
  have cleaned: "cleanAndDedupeResults referenceURL startState twoLogos 10 = removeCommonImages twoLogos"
    by (simp add: cleanAndDedupeResults_def cur two_logos_clean content two_logos_distinct len Let_def)
  have kept: "length (filter (\<lambda>r. itemImage r = Some logoB) (removeCommonImages twoLogos)) = 5"
    unfolding two_logos_removed by (simp add: pictured_fields row_def)
  have counts: "imageCounts (slice0 10 (dedupeFilter referenceURL ''https://example.com/list'' (existingGlobal referenceURL startState) []
                   (filter hasContent (map (cleanRow referenceURL ''https://example.com/list'') twoLogos))))
     = [(logoA, 5), (logoB, 5)]"
    by (simp only: two_logos_clean content two_logos_distinct len two_logos_counts)
  from counts two_logos_removed kept show ?thesis
    unfolding cleaned by (intro conjI)
qed

lemma zero_pages_extract:
  "extractItemsFromSnapshot U (cfg\<lparr>maxPages := v\<rparr>) snap view st = extractItemsFromSnapshot U cfg snap view st"
  by (simp add: extractItemsFromSnapshot_def maxNeededOf_def extractFromSchema_def Let_def
      split: sum.splits)

lemma zero_pages_steps:
  "rootStep U (cfg\<lparr>maxPages := v\<rparr>) view st = rootStep U cfg view st"
  "childStep U (cfg\<lparr>maxPages := v\<rparr>) h reached st = childStep U cfg h reached st"
  "paginate (cfg\<lparr>maxPages := v\<rparr>) page snap st = paginate cfg page snap st"
  "buildResult (cfg\<lparr>maxPages := v\<rparr>) st = buildResult cfg st"
  "attemptsOf (cfg\<lparr>maxPages := v\<rparr>) = attemptsOf cfg"
  "delayOf (cfg\<lparr>maxPages := v\<rparr>) = delayOf cfg"
  "buildStartUrl (cfg\<lparr>maxPages := v\<rparr>) = buildStartUrl cfg"
  by (simp_all add: rootStep_def childStep_def paginate_def buildResult_def attemptsOf_def delayOf_def
      buildStartUrl_def zero_pages_extract Let_def split: sum.splits option.splits)

lemma zero_pages_state:
  "(initializeState (cfg\<lparr>maxPages := v\<rparr>) :: 'r ScrapingState) = initializeState cfg"
  by (simp add: initializeState_def)

lemma zero_pages_continue:
  "shouldContinue (cfg\<lparr>maxPages := Some 0\<rparr>) st = shouldContinue (cfg\<lparr>maxPages := None\<rparr>) st"
  by (simp add: shouldContinue_def truthyNum_def)

lemma zero_pages_follow:
  "followDiscovered U (cfg\<lparr>maxPages := Some 0\<rparr>) goto links st
     = followDiscovered U (cfg\<lparr>maxPages := None\<rparr>) goto links st"
proof (induction links arbitrary: st)
  case Nil
  show ?case by simp
next
  case (Cons h links)
  show ?case
    by (simp add: zero_pages_continue [of cfg st] zero_pages_steps Cons.IH split: sum.splits)
qed

lemma zero_pages_cycle:
  "cycle U (cfg\<lparr>maxPages := Some 0\<rparr>) page st = cycle U (cfg\<lparr>maxPages := None\<rparr>) page st"
  by (simp add: cycle_def zero_pages_steps zero_pages_follow split: sum.splits prod.splits)

lemma zero_pages_loop:
  "scrapingLoop U (cfg\<lparr>maxPages := Some 0\<rparr>) pages st = scrapingLoop U (cfg\<lparr>maxPages := None\<rparr>) pages st"
proof (induction pages arbitrary: st)
  case Nil
  show ?case by (simp add: zero_pages_continue [of cfg st] zero_pages_steps)
next
  case (Cons page pages)
  show ?case
    by (simp add: zero_pages_continue [of cfg st] zero_pages_cycle zero_pages_steps Cons.IH Let_def
        split: sum.splits prod.splits)
qed

lemma zero_pages_run:
  "run U (cfg\<lparr>maxPages := Some 0\<rparr>) pages = run U (cfg\<lparr>maxPages := None\<rparr>) pages"
  by (simp add: run_def zero_pages_loop zero_pages_state zero_pages_steps)

lemma zero_items_extract:
  "maxItems cfg = Some 0 \<Longrightarrow> extractItemsFromSnapshot U cfg snap view st = Inr []"
  by (rule extract_zero) (simp add: maxNeededOf_def)

lemma zero_items_run:
  assumes "maxItems cfg = Some 0" and "snd (run U cfg pages) = Some res"
  shows "resultData res = []"
proof -
  have "int (length (resultData res)) \<le> 0"
    using assms
    by (intro loop_items [of cfg 0 "(initializeState cfg)\<lparr>currentUrl := buildStartUrl cfg\<rparr>" U pages res])
       (simp_all add: run_def initializeState_def)
  then show ?thesis by simp
qed

lemma ten_all_cleaned:
  assumes "currentUrl st = ''https://example.com/list''" and "extractedItems st = []"
  shows "cleanAndDedupeResults referenceURL st tenRows MAX_SAFE_INTEGER = tenRows"
proof -
  have "slice0 MAX_SAFE_INTEGER tenRows = tenRows"
    by (simp add: slice0_def tenRows_def MAX_SAFE_INTEGER_def)
  moreover have "removeCommonImages tenRows = tenRows"
    by (simp add: removeCommonImages_def imageCounts_def item_href truthy_def tenRows_def)
  ultimately show ?thesis
    by (simp add: cleanAndDedupeResults_def assms existingGlobal_def ten_rows_clean ten_rows_content
        ten_rows_distinct Let_def)
qed

lemma ten_all_extracted:
  "extractItemsFromSnapshot referenceURL settings tenListed (viewOf tenListed tenRows) startState = Inr tenRows"
proof -
  have c: "cleanAndDedupeResults referenceURL startState tenRows MAX_SAFE_INTEGER = tenRows"
    by (rule ten_all_cleaned) (simp_all add: startState_def)
  have n: "maxNeededOf settings startState = MAX_SAFE_INTEGER"
    by (simp add: maxNeededOf_def settings_def startState_def MAX_SAFE_INTEGER_def)
  have t: "tenRows \<noteq> []" by (simp add: tenRows_def)
  have p: "\<not> MAX_SAFE_INTEGER \<le> 0" by (simp add: MAX_SAFE_INTEGER_def)
  show ?thesis
    unfolding extractItemsFromSnapshot_def n
    by (simp add: c t p Let_def extractFromSchema_def extractFromSnapshot_def settings_def tenListed_def
        snapshotAt_def listAt_def refAt_def viewOf_def)
qed

lemma ten_listed_cycle:
  assumes "extractItemsFromSnapshot referenceURL cfg tenListed (viewOf tenListed tenRows) startState = Inr items"
    and "followLinks cfg = False" and "schemaPagination cfg = False"
  shows "cycle referenceURL cfg (reachable (viewOf tenListed tenRows)) startState =
     Inr (startState\<lparr>extractedItems :=
            map (\<lambda>d. \<lparr>data = d, foundAt = ''https://example.com/list''\<rparr>) items\<rparr>, False)"
proof -
  have st: "startState\<lparr>currentUrl := ''https://example.com/list''\<rparr> = startState"
    "extractedItems startState = []" "currentUrl startState = ''https://example.com/list''"
    by (simp_all add: startState_def)
  have u: "url (compact tenListed) = ''https://example.com/list''"
    "pagination (compact tenListed) = []"
    by (simp_all add: tenListed_def snapshotAt_def)
  have v: "viewSnapshot (viewOf tenListed tenRows) = Inr tenListed"
    "viewDump (viewOf tenListed tenRows) = None"
    by (simp_all add: viewOf_def)
  show ?thesis
    unfolding cycle_def rootStep_def
    by (simp add: reachable_def v u st assms Let_def pushItems_def paginate_def chooseNextPageHref_def)
qed

lemma ten_of_ten:
  "run referenceURL settings [reachable (viewOf tenListed tenRows)] =
     ([CycleBegins startState],
      Some \<lparr>resultUrl = ''https://example.com'', resultData = tenRows,
            metaPageCount = 1, metaItemCount = 10, metaErrors = []\<rparr>)"
proof -
  have s: "(initializeState settings :: Row ScrapingState)\<lparr>currentUrl := buildStartUrl settings\<rparr> = startState"
    by (simp add: site_eval engine_eval)
  have c: "shouldContinue settings startState"
    by (simp add: shouldContinue_def truthyNum_def settings_def startState_def)
  have y: "cycle referenceURL settings (reachable (viewOf tenListed tenRows)) startState =
     Inr (startState\<lparr>extractedItems :=
            map (\<lambda>d. \<lparr>data = d, foundAt = ''https://example.com/list''\<rparr>) tenRows\<rparr>, False)"
    by (rule ten_listed_cycle [OF ten_all_extracted]) (simp_all add: settings_def)
  have l: "length tenRows = 10" by (simp add: tenRows_def)
  show ?thesis
    unfolding run_def s
    by (simp add: c y) (simp add: buildResult_def startState_def settings_def l comp_def)
qed

lemma none_of_ten:
  "run referenceURL (settings\<lparr>maxItems := Some 0\<rparr>) [reachable (viewOf tenListed tenRows)] =
     ([CycleBegins startState],
      Some \<lparr>resultUrl = ''https://example.com'', resultData = [],
            metaPageCount = 1, metaItemCount = 0, metaErrors = []\<rparr>)"
proof -
  have s: "(initializeState (settings\<lparr>maxItems := Some 0\<rparr>) :: Row ScrapingState)
     \<lparr>currentUrl := buildStartUrl (settings\<lparr>maxItems := Some 0\<rparr>)\<rparr> = startState"
    by (simp add: site_eval engine_eval)
  have c: "shouldContinue (settings\<lparr>maxItems := Some 0\<rparr>) startState"
    by (simp add: shouldContinue_def truthyNum_def settings_def startState_def)
  have x: "extractItemsFromSnapshot referenceURL (settings\<lparr>maxItems := Some 0\<rparr>) tenListed
             (viewOf tenListed tenRows) startState = Inr []"
    by (rule zero_items_extract) simp
  have y: "cycle referenceURL (settings\<lparr>maxItems := Some 0\<rparr>) (reachable (viewOf tenListed tenRows)) startState =
     Inr (startState\<lparr>extractedItems :=
            map (\<lambda>d. \<lparr>data = d, foundAt = ''https://example.com/list''\<rparr>) []\<rparr>, False)"
    by (rule ten_listed_cycle [OF x]) (simp_all add: settings_def)
  show ?thesis
    unfolding run_def s
    by (simp add: c y) (simp add: buildResult_def startState_def settings_def)
qed

text \<open>
  C9, as the code has it. A cycle that completes and goes on raises \<open>currentPage\<close> by
  one; a cycle that throws leaves it as it was and records one error, so the pass
  after it begins under the same page count. With \<open>maxPages = N\<close>, \<open>N\<close> at least 1,
  a run that returns has therefore begun at most \<open>N - 1\<close> cycles and one more for each
  error it reports. With \<open>maxPages = 1\<close> no cycle begins and the result has no data.
  A \<open>maxPages\<close> of 0 is as none: \<open>shouldContinue\<close> is the only reader of \<open>maxPages\<close>,
  and the run is the same. A \<open>maxItems\<close> of 0 is as none to \<open>shouldContinue\<close> only:
  extraction takes it as a capacity of zero, returns no records on any page, and a
  run that returns has no data.
\<close>

theorem maxPages_cycles:
  "(maxPages cfg = Some N \<and> 1 \<le> N \<and> run U cfg pages = (tr, Some res) \<longrightarrow>
       int (cyclesBegun tr) \<le> N - 1 + int (length (metaErrors res)))
   \<and> (maxPages cfg = Some 1 \<longrightarrow> (\<exists>res'. run U cfg pages = ([], Some res') \<and> resultData res' = []))
   \<and> shouldContinue (cfg\<lparr>maxPages := Some 0\<rparr>) st = shouldContinue (cfg\<lparr>maxPages := None\<rparr>) st
   \<and> shouldContinue (cfg\<lparr>maxItems := Some 0\<rparr>) st = shouldContinue (cfg\<lparr>maxItems := None\<rparr>) st
   \<and> run U (cfg\<lparr>maxPages := Some 0\<rparr>) pages = run U (cfg\<lparr>maxPages := None\<rparr>) pages
   \<and> (maxItems cfg = Some 0 \<longrightarrow> extractItemsFromSnapshot U cfg snap view st = Inr [])
   \<and> (maxItems cfg = Some 0 \<and> snd (run U cfg pages) = Some res0 \<longrightarrow> resultData res0 = [])"
proof (intro conjI impI)
  assume a: "maxPages cfg = Some N \<and> 1 \<le> N \<and> run U cfg pages = (tr, Some res)"
  let ?st = "(initializeState cfg :: 'a Row_scheme ScrapingState)\<lparr>currentUrl := buildStartUrl cfg\<rparr>"
  have "int (cyclesBegun (fst (scrapingLoop U cfg pages ?st))) + currentPage ?st + int (length (errors ?st))
           \<le> N + int (length (metaErrors res))"
    using a by (intro loop_cycles [of cfg N ?st U pages res])
      (simp_all add: run_def initializeState_def)
  moreover have "fst (scrapingLoop U cfg pages ?st) = tr" using a by (simp add: run_def)
  ultimately show "int (cyclesBegun tr) \<le> N - 1 + int (length (metaErrors res))"
    by (simp add: initializeState_def)
next
  assume one: "maxPages cfg = Some 1"
  then have "\<not> shouldContinue cfg ((initializeState cfg :: 'a Row_scheme ScrapingState)\<lparr>currentUrl := buildStartUrl cfg\<rparr>)"
    by (simp add: shouldContinue_def truthyNum_def initializeState_def)
  then have "run U cfg pages = ([], Some (buildResult cfg ((initializeState cfg)\<lparr>currentUrl := buildStartUrl cfg\<rparr>)))"
    unfolding run_def by (cases pages) simp_all
  then show "\<exists>res'. run U cfg pages = ([], Some res') \<and> resultData res' = []"
    by (simp add: buildResult_def initializeState_def)
next
  show "shouldContinue (cfg\<lparr>maxPages := Some 0\<rparr>) st = shouldContinue (cfg\<lparr>maxPages := None\<rparr>) st"
    by (simp add: shouldContinue_def truthyNum_def)
  show "shouldContinue (cfg\<lparr>maxItems := Some 0\<rparr>) st = shouldContinue (cfg\<lparr>maxItems := None\<rparr>) st"
    by (simp add: shouldContinue_def truthyNum_def)
  show "run U (cfg\<lparr>maxPages := Some 0\<rparr>) pages = run U (cfg\<lparr>maxPages := None\<rparr>) pages"
    by (rule zero_pages_run)
next
  assume "maxItems cfg = Some 0"
  then show "extractItemsFromSnapshot U cfg snap view st = Inr []" by (rule zero_items_extract)
next
  assume "maxItems cfg = Some 0 \<and> snd (run U cfg pages) = Some res0"
  then show "resultData res0 = []" using zero_items_run by blast
qed

theorem maxPages_cycles_witness:
  "cyclesBegun (fst (run referenceURL (settings\<lparr>maxPages := Some 2, retryAttempts := None\<rparr>)
                        [reachable (viewOf emptyFirst [])])) = 1
   \<and> int (cyclesBegun [CycleBegins startState]) \<le> 2 - 1 + int (length ([] :: ScrapingError list))
   \<and> (\<exists>res'. run referenceURL (settings\<lparr>maxPages := Some 1\<rparr>) [reachable (viewOf emptyFirst [])] = ([], Some res')
          \<and> resultData res' = [])
   \<and> extractItemsFromSnapshot referenceURL (settings\<lparr>maxItems := Some 0\<rparr>) tenListed
        (viewOf tenListed tenRows) startState = Inr []
   \<and> map_option resultData
        (snd (run referenceURL (settings\<lparr>maxItems := Some 0\<rparr>) [reachable (viewOf tenListed tenRows)]))
       = Some []"
proof -
  let ?cfg = "settings\<lparr>maxPages := Some 2, retryAttempts := None\<rparr>"
  let ?res = "\<lparr>resultUrl = ''https://example.com'', resultData = ([] :: Row list), metaPageCount = 2,
            metaItemCount = 0, metaErrors = []\<rparr>"
  let ?zero = "settings\<lparr>maxItems := Some 0\<rparr>"
  let ?none = "\<lparr>resultUrl = ''https://example.com'', resultData = ([] :: Row list), metaPageCount = 1,
            metaItemCount = 0, metaErrors = []\<rparr>"
  note t = maxPages_cycles [of ?cfg 2 referenceURL "[reachable (viewOf emptyFirst [])]" "[CycleBegins startState]" ?res]
  have h: "maxPages ?cfg = Some 2 \<and> (1::int) \<le> 2 \<and>
      run referenceURL ?cfg [reachable (viewOf emptyFirst [])] = ([CycleBegins startState], Some ?res)"
    using one_cycle_of_two_pages by (simp add: settings_def)
  note t1 = t [THEN conjunct1, THEN mp, OF h]
  note u = maxPages_cycles [of "settings\<lparr>maxPages := Some 1\<rparr>" 1 referenceURL "[reachable (viewOf emptyFirst [])]"]
  have "maxPages (settings\<lparr>maxPages := Some 1\<rparr>) = Some 1" by simp
  note u1 = u [THEN conjunct2, THEN conjunct1, THEN mp, OF this]
  note w = maxPages_cycles [of ?zero 0 referenceURL "[reachable (viewOf tenListed tenRows)]" _ _
      startState tenListed "viewOf tenListed tenRows" ?none]
  have z: "maxItems ?zero = Some 0" by simp
  have r: "maxItems ?zero = Some 0 \<and>
      snd (run referenceURL ?zero [reachable (viewOf tenListed tenRows)]) = Some ?none"
    by (simp add: none_of_ten)
  note w1 = w [THEN conjunct2, THEN conjunct2, THEN conjunct2, THEN conjunct2, THEN conjunct2,
      THEN conjunct1, THEN mp, OF z]
  note w2 = w [THEN conjunct2, THEN conjunct2, THEN conjunct2, THEN conjunct2, THEN conjunct2,
      THEN conjunct2, THEN mp, OF r]
  show ?thesis
    using t1 u1 w1 w2 by (simp add: one_cycle_of_two_pages none_of_ten cyclesBegun_def isCycleBegins_def)
qed

theorem maxPages_retry_and_zero_items_counterexample:
  "cyclesBegun (fst (run referenceURL (settings\<lparr>maxPages := Some 2, retryAttempts := None\<rparr>)
                        [unreachable (viewOf emptyFirst []), reachable (viewOf emptyLast [])])) = 2
   \<and> map_option (\<lambda>res. length (metaErrors res))
        (snd (run referenceURL (settings\<lparr>maxPages := Some 2, retryAttempts := None\<rparr>)
                  [unreachable (viewOf emptyFirst []), reachable (viewOf emptyLast [])])) = Some 1
   \<and> map_option (\<lambda>res. length (resultData res))
        (snd (run referenceURL (settings\<lparr>maxItems := Some 0\<rparr>) [reachable (viewOf tenListed tenRows)]))
       = Some 0
   \<and> map_option (\<lambda>res. length (resultData res))
        (snd (run referenceURL (settings\<lparr>maxItems := None\<rparr>) [reachable (viewOf tenListed tenRows)]))
       = Some 10"
proof -
  have "settings\<lparr>maxItems := None\<rparr> = settings" by (simp add: settings_def)
  moreover have "length tenRows = 10" by (simp add: tenRows_def)
  ultimately show ?thesis
    by (simp add: retried_cycle none_of_ten ten_of_ten cyclesBegun_def isCycleBegins_def)
qed

end
